theory Spec2Isabelle
  imports Main "HOL-Library.Word"
begin

unbundle bit_operations_syntax

section \<open>Python values and failures\<close>

text \<open>
  Python integers are unbounded and are modelled as \<^typ>\<open>int\<close>; \<open>//\<close> and \<open>%\<close> are
  floor division and its remainder, as \<open>div\<close> and \<open>mod\<close> on \<^typ>\<open>int\<close>.
  A call either returns a value (\<open>Inr\<close>) or fails (\<open>Inl\<close>).  \<open>InputExhausted\<close> is not a
  Python exception: the environment (random source, clock) is given to the model as a finite
  prefix of what the device would deliver, and \<open>InputExhausted\<close> says that the run asked for
  more than the prefix holds.  \<open>Diverges\<close> marks a loop that never returns.
  \<open>RuntimeError\<close> is what MicroPython raises when a recursion goes deeper than its stack
  allows.
\<close>

datatype error =
    ValueError | TypeError | OverflowError | AttributeError | ZeroDivisionError
  | RuntimeError | InputExhausted | Diverges

type_synonym byte = "8 word"

section \<open>RSA/RSA.py: integer arithmetic\<close>

text \<open>\<open>MicroRSA.gcd\<close>: \<open>while b: a, b = b, a % b\<close>.\<close>

function gcd_rsa :: "int \<Rightarrow> int \<Rightarrow> int" where
  "gcd_rsa a b = (if b \<noteq> 0 then gcd_rsa b (a mod b) else a)"
  by pat_completeness auto
termination
  by (relation "measure (\<lambda>(a, b). nat \<bar>b\<bar>)") (auto simp: abs_mod_less)

declare gcd_rsa.simps [simp del]

text \<open>
  \<open>MicroRSA.extended_gcd\<close> calls itself once for every division step, so a call with
  \<open>a \<noteq> 0\<close> needs one more frame of the interpreter's stack than the call it makes.  The
  first argument of the model is the number of nested calls the interpreter can still open
  when \<open>extended_gcd\<close> is entered; a call that finds none left raises \<open>RuntimeError\<close>
  (maximum recursion depth exceeded).
\<close>

fun extended_gcd :: "nat \<Rightarrow> int \<Rightarrow> int \<Rightarrow> error + int \<times> int \<times> int" where
  "extended_gcd 0 a b = Inl RuntimeError"
| "extended_gcd (Suc frames) a b =
     (if a = 0 then Inr (b, 0, 1)
      else (case extended_gcd frames (b mod a) a of
              Inl err \<Rightarrow> Inl err
            | Inr (g, y, x) \<Rightarrow> Inr (g, x - (b div a) * y, y)))"

text \<open>\<open>MicroRSA.modinv\<close>: \<open>None\<close> when the gcd is not 1, else \<open>x % m\<close> (which raises
  \<open>ZeroDivisionError\<close> for \<open>m = 0\<close>).\<close>

definition modinv :: "nat \<Rightarrow> int \<Rightarrow> int \<Rightarrow> error + int option" where
  "modinv frames a m =
     (case extended_gcd frames a m of
        Inl err \<Rightarrow> Inl err
      | Inr (g, x, y) \<Rightarrow>
          if g \<noteq> 1 then Inr None
          else if m = 0 then Inl ZeroDivisionError
          else Inr (Some (x mod m)))"

text \<open>The number of frames that \<open>extended_gcd a b\<close> needs: one for each call of the
  recursion, the last of which has \<open>a = 0\<close>.\<close>

function euclid_frames :: "int \<Rightarrow> int \<Rightarrow> nat" where
  "euclid_frames a b = (if a = 0 then 1 else Suc (euclid_frames (b mod a) a))"
  by pat_completeness auto
termination
  by (relation "measure (\<lambda>(a, b). nat \<bar>a\<bar>)") (auto simp: abs_mod_less)

declare euclid_frames.simps [simp del]

section \<open>Properties of the integer arithmetic\<close>

lemma gcd_rsa_eq_gcd: "0 \<le> a \<Longrightarrow> 0 \<le> b \<Longrightarrow> gcd_rsa a b = gcd a b"
proof (induction a b rule: gcd_rsa.induct)
  case (1 a b)
  show ?case
  proof (cases "b = 0")
    case True
    with "1.prems" show ?thesis by (simp add: gcd_rsa.simps)
  next
    case False
    with "1.prems" have "0 < b" by simp
    then have "0 \<le> a mod b" by simp
    with "1.IH" False "1.prems" have "gcd_rsa b (a mod b) = gcd b (a mod b)" by simp
    also have "\<dots> = gcd a b" by (rule gcd_red_int [symmetric])
    finally show ?thesis using False by (simp add: gcd_rsa.simps [of a b])
  qed
qed

lemma extended_gcd_unfold:
  "extended_gcd frames a b =
     (if frames = 0 then Inl RuntimeError
      else if a = 0 then Inr (b, 0, 1)
      else (case extended_gcd (frames - 1) (b mod a) a of
              Inl err \<Rightarrow> Inl err
            | Inr (g, y, x) \<Rightarrow> Inr (g, x - (b div a) * y, y)))"
  by (cases frames) simp_all

lemma extended_gcd_enough:
  "euclid_frames a b \<le> frames \<Longrightarrow> \<exists>r. extended_gcd frames a b = Inr r"
proof (induction frames arbitrary: a b)
  case 0
  then show ?case by (subst (asm) euclid_frames.simps) (simp split: if_splits)
next
  case (Suc frames)
  show ?case
  proof (cases "a = 0")
    case True
    then show ?thesis by simp
  next
    case False
    with Suc.prems have "euclid_frames (b mod a) a \<le> frames"
      by (subst (asm) euclid_frames.simps) simp
    from Suc.IH [OF this] obtain r where "extended_gcd frames (b mod a) a = Inr r" ..
    with False show ?thesis by (cases r) simp
  qed
qed

lemma extended_gcd_short:
  "frames < euclid_frames a b \<Longrightarrow> extended_gcd frames a b = Inl RuntimeError"
proof (induction frames arbitrary: a b)
  case 0
  show ?case by simp
next
  case (Suc frames)
  from Suc.prems have a: "a \<noteq> 0"
    by (subst (asm) euclid_frames.simps) (simp split: if_splits)
  with Suc.prems have "frames < euclid_frames (b mod a) a"
    by (subst (asm) euclid_frames.simps) simp
  from Suc.IH [OF this] a show ?case by simp
qed

lemma extended_gcd_more:
  "extended_gcd frames a b = Inr r \<Longrightarrow> extended_gcd (frames + extra) a b = Inr r"
proof (induction frames arbitrary: a b r)
  case 0
  then show ?case by simp
next
  case (Suc frames)
  show ?case
  proof (cases "a = 0")
    case True
    with Suc.prems show ?thesis by simp
  next
    case False
    with Suc.prems obtain r' where r': "extended_gcd frames (b mod a) a = Inr r'"
      by (auto split: sum.splits)
    from Suc.IH [OF r'] Suc.prems False r' show ?thesis by simp
  qed
qed

lemma extended_gcd_bezout:
  "extended_gcd frames a b = Inr (g, x, y) \<Longrightarrow> a * x + b * y = g"
proof (induction frames arbitrary: a b g x y)
  case 0
  then show ?case by simp
next
  case (Suc frames)
  show ?case
  proof (cases "a = 0")
    case True
    with Suc.prems show ?thesis by simp
  next
    case False
    with Suc.prems obtain g' y' x' where rec: "extended_gcd frames (b mod a) a = Inr (g', y', x')"
      by (auto split: sum.splits)
    from Suc.IH [OF rec] have ih: "(b mod a) * y' + a * x' = g'" .
    from Suc.prems False rec have res: "g = g'" "x = x' - (b div a) * y'" "y = y'"
      by auto
    have "a * x + b * y = a * (x' - (b div a) * y') + b * y'"
      using res by simp
    also have "\<dots> = a * x' + (b - a * (b div a)) * y'"
      by (simp add: algebra_simps)
    also have "\<dots> = a * x' + (b mod a) * y'"
      by (simp add: minus_mult_div_eq_mod)
    also have "\<dots> = g'" using ih by simp
    finally show ?thesis using res by simp
  qed
qed

lemma extended_gcd_fst:
  "0 \<le> a \<Longrightarrow> 0 \<le> b \<Longrightarrow> extended_gcd frames a b = Inr (g, x, y) \<Longrightarrow> g = gcd a b"
proof (induction frames arbitrary: a b g x y)
  case 0
  then show ?case by simp
next
  case (Suc frames)
  show ?case
  proof (cases "a = 0")
    case True
    with Suc.prems show ?thesis by simp
  next
    case False
    with Suc.prems have "0 < a" by simp
    then have m: "0 \<le> b mod a" by simp
    from Suc.prems False obtain g' y' x' where
      rec: "extended_gcd frames (b mod a) a = Inr (g', y', x')"
      by (auto split: sum.splits)
    from Suc.prems False rec have "g = g'" by auto
    also from Suc.IH [OF m Suc.prems(1) rec] have "g' = gcd (b mod a) a" .
    also have "\<dots> = gcd a (b mod a)" by (rule gcd.commute)
    also have "\<dots> = gcd b a" by (rule gcd_red_int [symmetric])
    also have "\<dots> = gcd a b" by (rule gcd.commute)
    finally show ?thesis .
  qed
qed

lemma modinv_more:
  "modinv frames a m = Inr r \<Longrightarrow> modinv (frames + extra) a m = Inr r"
proof -
  assume r: "modinv frames a m = Inr r"
  then obtain t where t: "extended_gcd frames a m = Inr t"
    by (auto simp: modinv_def split: sum.splits)
  from extended_gcd_more [OF t] have "extended_gcd (frames + extra) a m = Inr t" .
  with r t show ?thesis by (simp add: modinv_def)
qed

text \<open>What \<open>modinv\<close> returns, when it returns.\<close>

lemma modinv_result:
  assumes "0 < a" and "0 < m" and r: "modinv frames a m = Inr r"
  shows "(gcd a m = 1 \<longrightarrow> (\<exists>x. r = Some x \<and> 0 \<le> x \<and> x < m \<and> (a * x) mod m = 1 mod m))
       \<and> (gcd a m \<noteq> 1 \<longrightarrow> r = None)"
proof -
  from r obtain g x y where eg: "extended_gcd frames a m = Inr (g, x, y)"
    by (auto simp: modinv_def split: sum.splits)
  from assms(1,2) have g: "g = gcd a m"
    using extended_gcd_fst [OF _ _ eg] by simp
  from extended_gcd_bezout [OF eg] have bez: "a * x + m * y = g" .
  show ?thesis
  proof (intro conjI impI)
    assume co: "gcd a m = 1"
    with g eg assms r have rx: "r = Some (x mod m)"
      by (simp add: modinv_def)
    have "(a * (x mod m)) mod m = (a * x) mod m"
      by (simp add: mod_mult_right_eq)
    also have "\<dots> = (a * x + m * y) mod m" by simp
    also have "\<dots> = 1 mod m" using bez g co by simp
    finally have "(a * (x mod m)) mod m = 1 mod m" .
    with rx assms show "\<exists>x. r = Some x \<and> 0 \<le> x \<and> x < m \<and> (a * x) mod m = 1 mod m"
      by simp
  next
    assume "gcd a m \<noteq> 1"
    with g eg r show "r = None" by (simp add: modinv_def)
  qed
qed

text \<open>
  C6 (as amended).  For positive \<open>a\<close> and \<open>m\<close> whose recursion fits the frames that are
  left: when \<open>gcd a m = 1\<close>, \<open>modinv\<close> returns an \<open>x\<close> with \<open>0 \<le> x < m\<close> and \<open>a * x\<close>
  congruent to 1 modulo \<open>m\<close>, that is \<open>(a * x) mod m = 1 mod m\<close> (the remainder is 1 for every
  \<open>m > 1\<close> and 0 for \<open>m = 1\<close>); when \<open>gcd a m \<noteq> 1\<close> it returns \<open>None\<close>.  When the recursion
  does not fit, \<open>modinv\<close> raises \<open>RuntimeError\<close>.
\<close>

theorem modinv_correct:
  assumes "0 < a" and "0 < m"
  shows "(euclid_frames a m \<le> frames \<and> gcd a m = 1 \<longrightarrow>
            (\<exists>x. modinv frames a m = Inr (Some x) \<and> 0 \<le> x \<and> x < m
                 \<and> (a * x) mod m = 1 mod m))
       \<and> (euclid_frames a m \<le> frames \<and> gcd a m \<noteq> 1 \<longrightarrow> modinv frames a m = Inr None)
       \<and> (frames < euclid_frames a m \<longrightarrow> modinv frames a m = Inl RuntimeError)"
proof -
  have fits: "\<exists>r. modinv frames a m = Inr r" if "euclid_frames a m \<le> frames"
  proof -
    from extended_gcd_enough [OF that] obtain g x y where
      "extended_gcd frames a m = Inr (g, x, y)" by (metis prod_cases3)
    with assms(2) show ?thesis by (simp add: modinv_def)
  qed
  show ?thesis
  proof (intro conjI impI)
    assume "euclid_frames a m \<le> frames \<and> gcd a m = 1"
    with fits obtain r where "modinv frames a m = Inr r" and "gcd a m = 1" by auto
    with modinv_result [OF assms, of frames r]
    show "\<exists>x. modinv frames a m = Inr (Some x) \<and> 0 \<le> x \<and> x < m \<and> (a * x) mod m = 1 mod m"
      by auto
  next
    assume "euclid_frames a m \<le> frames \<and> gcd a m \<noteq> 1"
    with fits obtain r where "modinv frames a m = Inr r" and "gcd a m \<noteq> 1" by auto
    with modinv_result [OF assms, of frames r] show "modinv frames a m = Inr None" by auto
  next
    assume "frames < euclid_frames a m"
    then show "modinv frames a m = Inl RuntimeError"
      by (simp add: modinv_def extended_gcd_short)
  qed
qed

theorem modinv_correct_witness:
  "euclid_frames 3 7 \<le> 3
   \<and> (\<exists>x. modinv 3 3 7 = Inr (Some x) \<and> 0 \<le> x \<and> x < 7 \<and> (3 * x) mod 7 = 1 mod 7)
   \<and> euclid_frames 4 6 \<le> 3
   \<and> modinv 3 4 6 = Inr None
   \<and> 2 < euclid_frames 3 7
   \<and> modinv 2 3 7 = Inl RuntimeError"
proof -
  have g1: "gcd (3::int) 7 = 1" and g2: "gcd (4::int) 6 \<noteq> 1"
    by (simp_all add: gcd_rsa_eq_gcd [symmetric] gcd_rsa.simps)
  have f1: "euclid_frames 3 7 = 3" and f2: "euclid_frames 4 6 = 3"
    by (simp_all add: euclid_frames.simps)
  from modinv_correct [of 3 7 3] modinv_correct [of 4 6 3] modinv_correct [of 3 7 2] g1 g2 f1 f2
  show ?thesis by simp
qed

text \<open>
  C6 as stated asks for the remainder \<open>(a * x) mod m\<close> to be 1.  With \<open>a = 1\<close>, \<open>m = 1\<close> the
  gcd is 1, the recursion takes two frames, \<open>modinv\<close> returns 0, and the remainder of
  \<open>1 * 0\<close> modulo 1 is 0.
\<close>

theorem modinv_remainder_counterexample:
  "euclid_frames 1 1 = 2 \<and> modinv 2 1 1 = Inr (Some 0) \<and> gcd (1::int) 1 = 1
   \<and> ((1::int) * 0) mod 1 \<noteq> 1"
  by (simp add: modinv_def extended_gcd_unfold euclid_frames.simps)

section \<open>RSA/RSA.py: the environment\<close>

text \<open>
  \<open>urandom.getrandbits\<close> and \<open>time.ticks_ms\<close> read the device.  The model threads a
  \<open>world\<close> through every call that reads it: \<open>rand_src\<close> holds the raw outputs the random
  generator will deliver, in order, and \<open>clock\<close> the successive readings of the millisecond
  counter.  \<open>getrandbits k\<close> keeps the low \<open>k\<close> bits of the next output, so its result is
  always a \<open>k\<close>-bit value.
\<close>

record world =
  rand_src :: "nat list"
  clock :: "int list"

definition getrandbits :: "nat \<Rightarrow> world \<Rightarrow> error + (int \<times> world)" where
  "getrandbits k w =
     (case rand_src w of
        [] \<Rightarrow> Inl InputExhausted
      | r # rs \<Rightarrow> Inr (int (r mod 2 ^ k), w\<lparr>rand_src := rs\<rparr>))"

definition ticks_ms :: "world \<Rightarrow> error + (int \<times> world)" where
  "ticks_ms w =
     (case clock w of
        [] \<Rightarrow> Inl InputExhausted
      | t # ts \<Rightarrow> Inr (t, w\<lparr>clock := ts\<rparr>))"

text \<open>\<open>time.ticks_diff\<close> of MicroPython: the signed difference of two counter readings,
  the counter wrapping around at \<open>TICKS_PERIOD = 2 ^ 30\<close>.\<close>

definition TICKS_PERIOD :: int where
  "TICKS_PERIOD = 2 ^ 30"

definition ticks_diff :: "int \<Rightarrow> int \<Rightarrow> int" where
  "ticks_diff t1 t2 =
     (t1 - t2 + TICKS_PERIOD div 2) mod TICKS_PERIOD - TICKS_PERIOD div 2"

section \<open>RSA/RSA.py: the class and the primality test\<close>

text \<open>The attributes set by \<open>MicroRSA.__init__\<close> (\<open>self.e\<close> is the field \<open>rsa_e\<close>).\<close>

record micro_rsa =
  key_length :: int
  rsa_e :: int
  max_attempts :: int
  prime_certainty :: int

definition MicroRSA :: "int \<Rightarrow> micro_rsa" where
  "MicroRSA kl =
     \<lparr>key_length = min kl 512, rsa_e = 65537, max_attempts = 500, prime_certainty = 5\<rparr>"

text \<open>
  The built-in \<open>pow(b, e, m)\<close> for a positive exponent \<open>e\<close> and a modulus \<open>m \<noteq> 0\<close>.
  \<open>is_prime\<close> calls it with \<open>m = n \<ge> 5\<close> and an exponent that is positive, the curve code
  with the field prime as modulus and a positive exponent; \<open>sign\<close> and \<open>verify\<close>, where the
  exponent is part of a key, use \<open>pow3\<close> below, which has the other cases.
\<close>

definition pow_mod :: "int \<Rightarrow> int \<Rightarrow> int \<Rightarrow> int" where
  "pow_mod b e m = b ^ nat e mod m"

text \<open>Square-and-multiply, the equation by which concrete powers are evaluated.\<close>

lemma pow_mod_code [code]:
  "pow_mod b e m =
     (if e \<le> 0 then 1 mod m
      else let h = pow_mod b (e div 2) m; s = h * h mod m in
           if e mod 2 = 0 then s else s * b mod m)"
proof (cases "e \<le> 0")
  case True
  then show ?thesis by (simp add: pow_mod_def)
next
  case False
  define q where "q = e div 2"
  define h where "h = b ^ nat q mod m"
  from False have q0: "0 \<le> q" by (simp add: q_def)
  have hh: "h * h mod m = b ^ (2 * nat q) mod m"
    by (simp add: h_def mult_2 power_add mod_mult_eq)
  have rec: "pow_mod b (e div 2) m = h"
    by (simp add: pow_mod_def h_def q_def)
  show ?thesis
  proof (cases "e mod 2 = 0")
    case True
    then have "e = 2 * q" unfolding q_def by presburger
    with q0 have "nat e = 2 * nat q" by (simp add: nat_mult_distrib)
    then have "pow_mod b e m = h * h mod m" by (simp add: pow_mod_def hh)
    with False True rec show ?thesis by (simp add: Let_def)
  next
    case odd: False
    then have "e = 2 * q + 1" unfolding q_def by presburger
    with q0 have "nat e = Suc (2 * nat q)" by (simp add: nat_add_distrib nat_mult_distrib)
    then have "pow_mod b e m = (b ^ (2 * nat q) * b) mod m"
      by (simp add: pow_mod_def mult.commute)
    also have "\<dots> = (b ^ (2 * nat q) mod m) * b mod m"
      by (simp add: mod_mult_left_eq)
    also have "\<dots> = (h * h mod m) * b mod m" by (simp only: hh)
    finally show ?thesis using False odd rec by (simp add: Let_def)
  qed
qed

text \<open>The loop \<open>while d % 2 == 0: d //= 2; s += 1\<close>.  It never returns for \<open>d = 0\<close>
  (the value \<open>None\<close>); \<open>is_prime\<close> runs it on \<open>n - 1 \<ge> 4\<close>.\<close>

function decompose :: "int \<Rightarrow> int \<Rightarrow> (int \<times> int) option" where
  "decompose d s =
     (if d = 0 then None
      else if d mod 2 = 0 then decompose (d div 2) (s + 1)
      else Some (d, s))"
  by pat_completeness auto
termination
  by (relation "measure (\<lambda>(d, s). nat \<bar>d\<bar>)") auto

declare decompose.simps [simp del]

text \<open>The witness of one round: \<open>a = urandom.getrandbits(16) % (n - 4) + 2\<close>, from the
  16-bit draw \<open>r\<close>.\<close>

definition mr_witness :: "int \<Rightarrow> int \<Rightarrow> int" where
  "mr_witness n r = r mod (n - 4) + 2"

text \<open>The inner \<open>for __ in range(s - 1)\<close> with its \<open>else\<close>: \<open>True\<close> when the loop left
  through \<open>break\<close> (some square was \<open>n - 1\<close>), \<open>False\<close> when it ran out (the \<open>else\<close> branch,
  where \<open>is_prime\<close> returns \<open>False\<close>).\<close>

fun inner_loop :: "nat \<Rightarrow> int \<Rightarrow> int \<Rightarrow> bool" where
  "inner_loop 0 x n = False"
| "inner_loop (Suc k) x n =
     (let x' = pow_mod x 2 n in if x' = n - 1 then True else inner_loop k x' n)"

text \<open>The outer \<open>for _ in range(self.prime_certainty)\<close>.\<close>

fun rounds_loop :: "nat \<Rightarrow> int \<Rightarrow> int \<Rightarrow> int \<Rightarrow> world \<Rightarrow> error + (bool \<times> world)" where
  "rounds_loop 0 n d s w = Inr (True, w)"
| "rounds_loop (Suc k) n d s w =
     (case getrandbits 16 w of
        Inl err \<Rightarrow> Inl err
      | Inr (r, w') \<Rightarrow>
          let a = mr_witness n r; x = pow_mod a d n in
          if x = 1 \<or> x = n - 1 then rounds_loop k n d s w'
          else if inner_loop (nat (s - 1)) x n then rounds_loop k n d s w'
          else Inr (False, w'))"

definition is_prime :: "micro_rsa \<Rightarrow> int \<Rightarrow> world \<Rightarrow> error + (bool \<times> world)" where
  "is_prime K n w =
     (if n \<le> 3 then Inr (n > 1, w)
      else if n mod 2 = 0 then Inr (False, w)
      else (case decompose (n - 1) 0 of
              None \<Rightarrow> Inl Diverges
            | Some (d, s) \<Rightarrow> rounds_loop (nat (prime_certainty K)) n d s w))"

section \<open>RSA/RSA.py: prime candidates\<close>

text \<open>\<open>generate_prime_candidate\<close>: draw 32 bits until the draw is at least 3, then set
  bit \<open>key_length // 2 - 1\<close> and bit 0.  A negative shift count raises \<open>ValueError\<close>.\<close>

lemma getrandbits_consumes:
  "getrandbits k w = Inr (r, w') \<Longrightarrow> length (rand_src w') < length (rand_src w)"
  by (auto simp: getrandbits_def split: list.splits)

function generate_prime_candidate :: "micro_rsa \<Rightarrow> world \<Rightarrow> error + (int \<times> world)" where
  "generate_prime_candidate K w =
     (case getrandbits 32 w of
        Inl err \<Rightarrow> Inl err
      | Inr (p, w') \<Rightarrow>
          if p < 3 then generate_prime_candidate K w'
          else if key_length K div 2 - 1 < 0 then Inl ValueError
          else Inr (p OR (push_bit (nat (key_length K div 2 - 1)) 1 OR 1), w'))"
  by pat_completeness auto
termination
  by (relation "measure (\<lambda>(K, w). length (rand_src w))")
     (auto dest: getrandbits_consumes)

declare generate_prime_candidate.simps [simp del]

section \<open>The witness range of the primality test\<close>

lemma getrandbits_range:
  "getrandbits k w = Inr (r, w') \<Longrightarrow> 0 \<le> r \<and> r < 2 ^ k"
  by (auto simp: getrandbits_def split: list.splits)

text \<open>
  C10.  In \<open>is_prime\<close>, for every \<open>n > 2 ^ 16 + 4\<close> and every 16-bit draw \<open>r\<close> the
  Miller-Rabin witness \<open>a = r mod (n - 4) + 2\<close> is \<open>r + 2\<close>, so \<open>2 \<le> a \<le> 2 ^ 16 + 1\<close>:
  for large candidates the witness never exceeds 65537.
\<close>

theorem mr_witness_range:
  assumes "2 ^ 16 + 4 < n" and "getrandbits 16 w = Inr (r, w')"
  shows "mr_witness n r = r + 2 \<and> 2 \<le> mr_witness n r \<and> mr_witness n r \<le> 2 ^ 16 + 1"
proof -
  from getrandbits_range [OF assms(2)] have "0 \<le> r" "r < 2 ^ 16" by simp_all
  with assms(1) show ?thesis by (simp add: mr_witness_def)
qed

theorem mr_witness_range_witness:
  "(2::int) ^ 16 + 4 < 2 ^ 191 + 5
   \<and> getrandbits 16 \<lparr>rand_src = [70000], clock = []\<rparr> = Inr (4464, \<lparr>rand_src = [], clock = []\<rparr>)
   \<and> mr_witness (2 ^ 191 + 5) 4464 = 4466"
proof -
  have g: "getrandbits 16 \<lparr>rand_src = [70000], clock = []\<rparr> = Inr (4464, \<lparr>rand_src = [], clock = []\<rparr>)"
    by (simp add: getrandbits_def)
  have n: "(2::int) ^ 16 + 4 < 2 ^ 191 + 5" by simp
  from mr_witness_range [OF n g] n g show ?thesis by simp
qed

section \<open>The shape of a prime candidate\<close>

lemma bit_small: "0 \<le> (x::int) \<Longrightarrow> x < 2 ^ n \<Longrightarrow> n \<le> i \<Longrightarrow> \<not> bit x i"
proof -
  assume a: "0 \<le> x" "x < 2 ^ n" "n \<le> i"
  have "(2::int) ^ n \<le> 2 ^ i" using a(3) by (simp add: power_increasing)
  with a have "x < 2 ^ i" by linarith
  with a have "x div 2 ^ i = 0" by (intro div_pos_pos_trivial)
  then show ?thesis by (simp add: bit_iff_odd)
qed

lemma generate_prime_candidate_form:
  "generate_prime_candidate K w = Inr (p, w') \<Longrightarrow>
     0 \<le> key_length K div 2 - 1 \<and>
     (\<exists>r. 3 \<le> r \<and> r < 2 ^ 32 \<and> p = r OR (push_bit (nat (key_length K div 2 - 1)) 1 OR 1))"
proof (induction K w rule: generate_prime_candidate.induct)
  case (1 K w)
  obtain r w1 where g: "getrandbits 32 w = Inr (r, w1)"
    using "1.prems" by (subst (asm) generate_prime_candidate.simps) (auto split: sum.splits)
  from getrandbits_range [OF g] have r: "r < 2 ^ 32" by simp
  show ?case
  proof (cases "r < 3")
    case True
    with g "1.prems" have "generate_prime_candidate K w1 = Inr (p, w')"
      by (subst (asm) generate_prime_candidate.simps) simp
    with "1.IH" [OF g refl True] show ?thesis by simp
  next
    case False
    with g "1.prems" r show ?thesis
      by (subst (asm) generate_prime_candidate.simps)
         (auto split: if_splits intro!: exI [of _ r])
  qed
qed

text \<open>
  C8.  When \<open>key_length // 2 - 1 \<ge> 32\<close>, every value \<open>p\<close> returned by
  \<open>generate_prime_candidate\<close> is odd, has bit \<open>key_length // 2 - 1\<close> set, has every bit
  from index 32 up to \<open>key_length // 2 - 2\<close> clear, and lies in
  \<open>2 ^ (key_length // 2 - 1) \<le> p < 2 ^ (key_length // 2 - 1) + 2 ^ 32\<close>: only 32 bits are drawn.
\<close>

theorem candidate_shape:
  assumes "32 \<le> key_length K div 2 - 1"
    and "generate_prime_candidate K w = Inr (p, w')"
  shows "odd p \<and> bit p (nat (key_length K div 2 - 1))
       \<and> (\<forall>i. 32 \<le> i \<and> i < nat (key_length K div 2 - 1) \<longrightarrow> \<not> bit p i)
       \<and> 2 ^ nat (key_length K div 2 - 1) \<le> p
       \<and> p < 2 ^ nat (key_length K div 2 - 1) + 2 ^ 32"
proof -
  define h where "h = nat (key_length K div 2 - 1)"
  from assms(1) have h32: "32 \<le> h" by (simp add: h_def)
  from generate_prime_candidate_form [OF assms(2)]
  obtain r where r: "3 \<le> r" "r < 2 ^ 32" and p: "p = r OR (push_bit h 1 OR 1)"
    by (auto simp: h_def)
  define r1 where "r1 = r OR 1"
  from r have r1: "0 \<le> r1" "r1 < 2 ^ 32"
    using OR_upper [of r 32 1] by (simp_all add: r1_def)
  have pbit: "bit p i \<longleftrightarrow> bit r1 i \<or> i = h" for i
    by (auto simp: p r1_def bit_or_iff bit_exp_iff bit_1_iff)
  have nb: "\<not> bit r1 i" if "32 \<le> i" for i
    using r1 that by (rule bit_small)
  have disj: "\<not> bit ((2::int) ^ h) n \<or> \<not> bit r1 n" for n
    using nb [of n] h32 by (auto simp: bit_exp_iff)
  have "p = 2 ^ h OR r1"
    by (simp add: p r1_def push_bit_of_1 ac_simps)
  also have "\<dots> = 2 ^ h + r1" using disjunctive_add [of "2 ^ h" r1] disj by simp
  finally have sum: "p = 2 ^ h + r1" .
  have "odd p" using pbit [of 0] by (simp add: bit_0 r1_def even_or_iff)
  moreover have "bit p h" by (simp add: pbit)
  moreover have "\<forall>i. 32 \<le> i \<and> i < h \<longrightarrow> \<not> bit p i" using nb by (auto simp: pbit)
  ultimately show ?thesis using sum r1 by (simp add: h_def)
qed

theorem candidate_shape_witness:
  "generate_prime_candidate (MicroRSA 384) \<lparr>rand_src = [5], clock = []\<rparr>
     = Inr (2 ^ 191 + 5, \<lparr>rand_src = [], clock = []\<rparr>)
   \<and> odd ((2::int) ^ 191 + 5) \<and> bit ((2::int) ^ 191 + 5) 191 \<and> \<not> bit ((2::int) ^ 191 + 5) 100"
proof -
  have k: "32 \<le> key_length (MicroRSA 384) div 2 - 1" by (simp add: MicroRSA_def)
  have h: "nat (key_length (MicroRSA 384) div 2 - 1) = 191" by (simp add: MicroRSA_def)
  have g: "generate_prime_candidate (MicroRSA 384) \<lparr>rand_src = [5], clock = []\<rparr>
     = Inr (2 ^ 191 + 5, \<lparr>rand_src = [], clock = []\<rparr>)"
    by (subst generate_prime_candidate.simps) (simp add: getrandbits_def MicroRSA_def)
  from candidate_shape [OF k g]
  have "odd ((2::int) ^ 191 + 5) \<and> bit ((2::int) ^ 191 + 5) 191
      \<and> (\<forall>i. 32 \<le> i \<and> i < 191 \<longrightarrow> \<not> bit ((2::int) ^ 191 + 5) i)"
    unfolding h by blast
  then have "odd ((2::int) ^ 191 + 5) \<and> bit ((2::int) ^ 191 + 5) 191
      \<and> \<not> bit ((2::int) ^ 191 + 5) 100"
    by auto
  with g show ?thesis by blast
qed

section \<open>Elementary number theory: Fermat's little theorem\<close>

text \<open>Primality of a natural number, by bounded search for a divisor.\<close>

definition prime_nat :: "nat \<Rightarrow> bool" where
  "prime_nat p \<longleftrightarrow> 1 < p \<and> (\<forall>d\<in>{2..<p}. \<not> d dvd p)"

lemma prime_nat_divisors:
  assumes "prime_nat p" and "d dvd p"
  shows "d = 1 \<or> d = p"
proof -
  from assms have p: "1 < p" and all: "\<forall>d\<in>{2..<p}. \<not> d dvd p"
    by (simp_all add: prime_nat_def)
  from assms(2) p have "d \<le> p" by (simp add: dvd_imp_le)
  moreover from assms(2) p have "d \<noteq> 0" by (metis dvd_0_left not_less_zero zero_less_one less_trans)
  ultimately show ?thesis using all assms(2) by (cases "d = 1"; cases "d = p") auto
qed

lemma prime_nat_coprime:
  assumes "prime_nat p" and "\<not> p dvd a"
  shows "coprime p a"
proof (rule coprimeI)
  fix c assume "c dvd p" and ca: "c dvd a"
  with prime_nat_divisors [OF assms(1)] have "c = 1 \<or> c = p" by blast
  with ca assms(2) show "is_unit c" by auto
qed

lemma prime_nat_dvd_mult:
  assumes "prime_nat p" and "p dvd a * b"
  shows "p dvd a \<or> p dvd b"
proof (cases "p dvd a")
  case True
  then show ?thesis ..
next
  case False
  with assms(1) have "coprime p a" by (rule prime_nat_coprime)
  with assms(2) have "p dvd b" by (simp add: coprime_dvd_mult_right_iff)
  then show ?thesis ..
qed

lemma prime_nat_dvd_binomial:
  assumes "prime_nat p" and "0 < k" and "k < p"
  shows "p dvd (p choose k)"
proof -
  from assms obtain k' n where k: "k = Suc k'" and n: "p = Suc n"
    by (metis Suc_pred less_trans)
  have "k * (p choose k) = p * (n choose k')"
    unfolding k n by (rule Suc_times_binomial)
  then have "p dvd k * (p choose k)" by (simp only: dvd_triv_left)
  moreover from assms have "\<not> p dvd k" by (simp add: nat_dvd_not_less)
  ultimately show ?thesis using prime_nat_dvd_mult [OF assms(1)] by blast
qed

lemma fermat_step:
  assumes "prime_nat p"
  shows "(a + 1) ^ p mod p = (a ^ p + 1) mod p"
proof -
  from assms have p: "1 < p" by (simp add: prime_nat_def)
  have "(a + 1) ^ p = (\<Sum>k\<le>p. (p choose k) * a ^ k)"
    using binomial [of a 1 p] by simp
  also have "{..p} = insert 0 (insert p {1..<p})" using p by auto
  also have "(\<Sum>k\<in>insert 0 (insert p {1..<p}). (p choose k) * a ^ k)
      = 1 + (a ^ p + (\<Sum>k\<in>{1..<p}. (p choose k) * a ^ k))"
    using p by simp
  finally have e: "(a + 1) ^ p = (a ^ p + 1) + (\<Sum>k\<in>{1..<p}. (p choose k) * a ^ k)"
    by simp
  have "p dvd (\<Sum>k\<in>{1..<p}. (p choose k) * a ^ k)"
  proof (rule dvd_sum)
    fix k assume "k \<in> {1..<p}"
    then have "0 < k" "k < p" by simp_all
    with assms have "p dvd (p choose k)" by (rule prime_nat_dvd_binomial)
    then show "p dvd (p choose k) * a ^ k" by (rule dvd_mult2)
  qed
  then show ?thesis unfolding e by (metis mod_add_self2 dvd_def mod_mult_self2)
qed

lemma fermat_little_nat:
  assumes "prime_nat p"
  shows "a ^ p mod p = a mod p"
proof (induction a)
  case 0
  from assms have "0 < p" by (simp add: prime_nat_def)
  then show ?case by (simp add: zero_power)
next
  case (Suc a)
  have "Suc a ^ p mod p = (a ^ p + 1) mod p"
    using fermat_step [OF assms, of a] by simp
  also have "\<dots> = (a ^ p mod p + 1) mod p" by (rule mod_add_left_eq [symmetric])
  also have "\<dots> = (a mod p + 1) mod p" by (simp only: Suc.IH)
  also have "\<dots> = (a + 1) mod p" by (rule mod_add_left_eq)
  also have "\<dots> = Suc a mod p" by simp
  finally show ?case .
qed

lemma prime_int_dvd_mult:
  assumes "prime_nat p" and "int p dvd u * v"
  shows "int p dvd u \<or> int p dvd v"
proof -
  from assms(2) have "p dvd nat \<bar>u * v\<bar>"
    by (simp only: dvd_nat_abs_iff)
  then have "p dvd nat \<bar>u\<bar> * nat \<bar>v\<bar>"
    by (simp only: nat_abs_mult_distrib)
  with assms(1) have "p dvd nat \<bar>u\<bar> \<or> p dvd nat \<bar>v\<bar>" by (rule prime_nat_dvd_mult)
  then show ?thesis by (simp only: dvd_nat_abs_iff)
qed

lemma fermat_little_int:
  assumes "prime_nat p" and "0 \<le> a"
  shows "(a::int) ^ p mod int p = a mod int p"
proof -
  have "int (nat a ^ p mod p) = int (nat a mod p)"
    by (simp only: fermat_little_nat [OF assms(1)])
  with assms(2) show ?thesis by (simp add: zmod_int)
qed

lemma fermat_unit_int:
  assumes "prime_nat p" and "0 \<le> a" and "\<not> int p dvd a"
  shows "(a::int) ^ (p - 1) mod int p = 1"
proof -
  from assms(1) have p: "1 < p" by (simp add: prime_nat_def)
  then have pp: "p = Suc (p - 1)" by simp
  from fermat_little_int [OF assms(1,2)] have "int p dvd a ^ p - a"
    by (simp add: mod_eq_dvd_iff)
  also have "a ^ p - a = a * (a ^ (p - 1) - 1)"
    by (subst pp) (simp add: algebra_simps)
  finally have "int p dvd a \<or> int p dvd a ^ (p - 1) - 1"
    by (rule prime_int_dvd_mult [OF assms(1)])
  with assms(3) have "a ^ (p - 1) mod int p = 1 mod int p"
    by (simp add: mod_eq_dvd_iff)
  with p show ?thesis by simp
qed

lemma sqrt_one_mod_prime:
  assumes "prime_nat p" and "0 \<le> x" and "x < int p" and "x * x mod int p = 1"
  shows "x = 1 \<or> x = int p - 1"
proof -
  from assms(1) have p: "1 < p" by (simp add: prime_nat_def)
  from assms(4) p have "x * x mod int p = 1 mod int p" by simp
  then have "int p dvd x * x - 1" by (simp add: mod_eq_dvd_iff)
  also have "x * x - 1 = (x - 1) * (x + 1)" by (simp add: algebra_simps)
  finally have dd: "int p dvd x - 1 \<or> int p dvd x + 1"
    by (rule prime_int_dvd_mult [OF assms(1)])
  from assms(4) p have "x \<noteq> 0" by auto
  from dd show ?thesis
  proof
    assume d: "int p dvd x - 1"
    show ?thesis
    proof (rule ccontr)
      assume "\<not> ?thesis"
      with \<open>x \<noteq> 0\<close> assms(2) have "0 < x - 1" by simp
      with d have "int p \<le> x - 1" by (rule zdvd_imp_le)
      with assms(3) show False by simp
    qed
  next
    assume d: "int p dvd x + 1"
    from assms(2) have "0 < x + 1" by simp
    with d have "int p \<le> x + 1" by (rule zdvd_imp_le)
    with assms(3) show ?thesis by simp
  qed
qed

section \<open>The rounds of the primality test\<close>

text \<open>The test of one round of \<open>rounds_loop\<close> on the witness \<open>a\<close>: the round goes on to
  the next one when it holds, and \<open>is_prime\<close> returns \<open>False\<close> when it fails
  (lemma \<open>rounds_loop_Suc\<close>).\<close>

definition round_passes :: "int \<Rightarrow> int \<Rightarrow> int \<Rightarrow> int \<Rightarrow> bool" where
  "round_passes n d s a =
     (let x = pow_mod a d n in x = 1 \<or> x = n - 1 \<or> inner_loop (nat (s - 1)) x n)"

lemma rounds_loop_Suc:
  "getrandbits 16 w = Inr (r, w') \<Longrightarrow>
   rounds_loop (Suc k) n d s w =
     (if round_passes n d s (mr_witness n r) then rounds_loop k n d s w' else Inr (False, w'))"
  by (auto simp: round_passes_def Let_def)

lemma getrandbits_Cons:
  "rand_src w = r # rs \<Longrightarrow> getrandbits k w = Inr (int (r mod 2 ^ k), w\<lparr>rand_src := rs\<rparr>)"
  by (simp add: getrandbits_def)

lemma rounds_loop_all_pass:
  "k \<le> length (rand_src w) \<Longrightarrow>
   \<forall>r\<in>set (take k (rand_src w)). round_passes n d s (mr_witness n (int (r mod 2 ^ 16))) \<Longrightarrow>
   rounds_loop k n d s w = Inr (True, w\<lparr>rand_src := drop k (rand_src w)\<rparr>)"
proof (induction k arbitrary: w)
  case 0
  then show ?case by simp
next
  case (Suc k)
  then obtain r rs where rs: "rand_src w = r # rs" by (cases "rand_src w") auto
  let ?w' = "w\<lparr>rand_src := rs\<rparr>"
  from Suc.prems rs have "k \<le> length (rand_src ?w')"
    and "\<forall>r\<in>set (take k (rand_src ?w')). round_passes n d s (mr_witness n (int (r mod 2 ^ 16)))"
    and "round_passes n d s (mr_witness n (int (r mod 2 ^ 16)))"
    by simp_all
  with Suc.IH [of ?w'] rs show ?case
    by (simp add: rounds_loop_Suc [OF getrandbits_Cons [OF rs]] del: rounds_loop.simps)
qed

lemma rounds_loop_some_fail:
  "k \<le> length (rand_src w) \<Longrightarrow>
   \<exists>r\<in>set (take k (rand_src w)). \<not> round_passes n d s (mr_witness n (int (r mod 2 ^ 16))) \<Longrightarrow>
   \<exists>w'. rounds_loop k n d s w = Inr (False, w')"
proof (induction k arbitrary: w)
  case 0
  then show ?case by simp
next
  case (Suc k)
  then obtain r rs where rs: "rand_src w = r # rs" by (cases "rand_src w") auto
  let ?w' = "w\<lparr>rand_src := rs\<rparr>"
  show ?case
  proof (cases "round_passes n d s (mr_witness n (int (r mod 2 ^ 16)))")
    case True
    with Suc.prems rs have "k \<le> length (rand_src ?w')"
      and "\<exists>r\<in>set (take k (rand_src ?w')). \<not> round_passes n d s (mr_witness n (int (r mod 2 ^ 16)))"
      by auto
    with Suc.IH [of ?w'] True show ?thesis
      by (simp add: rounds_loop_Suc [OF getrandbits_Cons [OF rs]] del: rounds_loop.simps)
  next
    case False
    then show ?thesis
      by (simp add: rounds_loop_Suc [OF getrandbits_Cons [OF rs]] del: rounds_loop.simps)
  qed
qed

lemma decompose_Some:
  "0 < d0 \<Longrightarrow> \<exists>d s. decompose d0 s0 = Some (d, s) \<and> odd d \<and> 0 < d \<and> s0 \<le> s
      \<and> d0 = d * 2 ^ nat (s - s0)"
proof (induction d0 s0 rule: decompose.induct)
  case (1 d0 s0)
  show ?case
  proof (cases "d0 mod 2 = 0")
    case True
    with "1.prems" have pos: "0 < d0 div 2" and ne: "d0 \<noteq> 0" by presburger+
    from "1.IH" [OF ne True pos] obtain d s where
      r: "decompose (d0 div 2) (s0 + 1) = Some (d, s)" "odd d" "0 < d" "s0 + 1 \<le> s"
         "d0 div 2 = d * 2 ^ nat (s - (s0 + 1))"
      by blast
    from r(4) have n: "nat (s - s0) = Suc (nat (s - (s0 + 1)))" by simp
    from True have "d0 = 2 * (d0 div 2)" by presburger
    also have "\<dots> = 2 * (d * 2 ^ nat (s - (s0 + 1)))" by (simp only: r(5))
    also have "\<dots> = d * 2 ^ nat (s - s0)" unfolding n by simp
    finally have "d0 = d * 2 ^ nat (s - s0)" .
    with r ne True show ?thesis by (subst decompose.simps) simp
  next
    case False
    with "1.prems" show ?thesis by (subst decompose.simps) (simp add: odd_iff_mod_2_eq_one)
  qed
qed

lemma inner_loop_finds:
  assumes "prime_nat p"
  shows "0 \<le> x \<Longrightarrow> x < int p \<Longrightarrow> x \<noteq> 1 \<Longrightarrow> x \<noteq> int p - 1 \<Longrightarrow>
         x ^ (2 ^ Suc k) mod int p = 1 \<Longrightarrow> inner_loop k x (int p)"
proof (induction k arbitrary: x)
  case 0
  then have "x * x mod int p = 1" by (simp add: power2_eq_square)
  with sqrt_one_mod_prime [OF assms "0.prems"(1,2)] "0.prems" show ?case by simp
next
  case (Suc k)
  from assms have p: "1 < p" by (simp add: prime_nat_def)
  define x' where "x' = pow_mod x 2 (int p)"
  have x': "x' = x * x mod int p" by (simp add: x'_def pow_mod_def power2_eq_square)
  with p have b: "0 \<le> x'" "x' < int p" by simp_all
  have ne1: "x' \<noteq> 1"
    using sqrt_one_mod_prime [OF assms Suc.prems(1,2)] Suc.prems(3,4) x' by auto
  have "x' ^ (2 ^ Suc k) mod int p = (x * x) ^ (2 ^ Suc k) mod int p"
    unfolding x' by (rule power_mod)
  also have "(x * x) ^ (2 ^ Suc k) = x ^ (2 ^ Suc (Suc k))"
    by (simp add: power2_eq_square [symmetric] power_mult [symmetric])
  finally have pw: "x' ^ (2 ^ Suc k) mod int p = 1" using Suc.prems(5) by simp
  show ?case
  proof (cases "x' = int p - 1")
    case True
    then show ?thesis by (simp add: x'_def [symmetric] Let_def)
  next
    case False
    with Suc.IH [OF b ne1 False pw] show ?thesis by (simp add: x'_def [symmetric] Let_def)
  qed
qed

section \<open>The primality test accepts every prime\<close>

lemma prime_nat_odd:
  assumes "prime_nat p" and "2 < p"
  shows "odd p"
proof
  assume "even p"
  moreover from assms have "\<forall>d\<in>{2..<p}. \<not> d dvd p" by (simp add: prime_nat_def)
  ultimately show False using assms(2) by auto
qed

lemma round_passes_prime:
  assumes pr: "prime_nat (nat n)" and n: "3 < n"
    and dec: "decompose (n - 1) 0 = Some (d, s)"
    and a: "2 \<le> a" "a \<le> n - 2"
  shows "round_passes n d s a"
proof -
  define p where "p = nat n"
  from n have np: "int p = n" by (simp add: p_def)
  from pr have prp: "prime_nat p" by (simp add: p_def)
  from n decompose_Some [of "n - 1" 0] dec
  have d: "odd d" "0 < d" "0 \<le> s" and fac: "n - 1 = d * 2 ^ nat s"
    by auto
  from prime_nat_odd [OF prp] n have "odd n" by (simp add: np [symmetric])
  with fac d(1) have "nat s \<noteq> 0" by (cases "nat s") auto
  then obtain k where k: "nat s = Suc k" by (cases "nat s") auto
  then have k': "nat (s - 1) = k" by simp
  define x where "x = pow_mod a d n"
  have x: "x = a ^ nat d mod int p" by (simp add: x_def pow_mod_def np)
  from n have b: "0 \<le> x" "x < int p" by (simp_all add: x np)
  have "\<not> int p dvd a"
  proof
    assume "int p dvd a"
    with a have "int p \<le> a" by (intro zdvd_imp_le) simp_all
    with a np show False by simp
  qed
  with fermat_unit_int [OF prp, of a] a have f: "a ^ (p - 1) mod int p = 1" by simp
  have "int (p - 1) = n - 1" using n by (simp add: p_def)
  also have "\<dots> = int (nat d * 2 ^ nat s)" using fac d by simp
  finally have "p - 1 = nat d * 2 ^ nat s" by (simp only: of_nat_eq_iff)
  then have "a ^ (p - 1) = (a ^ nat d) ^ (2 ^ Suc k)" by (simp add: k power_mult)
  with f have "(a ^ nat d) ^ (2 ^ Suc k) mod int p = 1" by simp
  then have pw: "x ^ (2 ^ Suc k) mod int p = 1" unfolding x by (simp add: power_mod)
  show ?thesis
  proof (cases "x = 1 \<or> x = n - 1")
    case True
    then show ?thesis by (auto simp: round_passes_def x_def [symmetric] Let_def)
  next
    case False
    with inner_loop_finds [OF prp b _ _ pw] have "inner_loop k x (int p)" by (simp add: np)
    then show ?thesis by (simp add: round_passes_def x_def [symmetric] k' np Let_def)
  qed
qed

lemma mr_witness_bounds:
  "4 < n \<Longrightarrow> 2 \<le> mr_witness n r \<and> mr_witness n r \<le> n - 2"
proof -
  assume "4 < n"
  then have "0 \<le> r mod (n - 4)" "r mod (n - 4) < n - 4" by simp_all
  then show ?thesis by (simp add: mr_witness_def)
qed

lemma is_prime_complete:
  assumes pr: "prime_nat (nat n)"
    and len: "nat (prime_certainty K) \<le> length (rand_src w)"
  shows "\<exists>w'. is_prime K n w = Inr (True, w')"
proof (cases "n \<le> 3")
  case True
  moreover from pr have "1 < n" by (simp add: prime_nat_def)
  ultimately show ?thesis by (simp add: is_prime_def)
next
  case False
  then have n: "3 < n" by simp
  then have "2 < nat n" by simp
  with prime_nat_odd [OF pr] have "odd (nat n)" .
  with n have "odd n" by (simp add: even_nat_iff)
  then have odd: "n mod 2 \<noteq> 0" by presburger
  with n have n4: "4 < n" by presburger
  from n decompose_Some [of "n - 1" 0] obtain d s where
    dec: "decompose (n - 1) 0 = Some (d, s)" by auto
  have "\<forall>r\<in>set (take (nat (prime_certainty K)) (rand_src w)).
          round_passes n d s (mr_witness n (int (r mod 2 ^ 16)))"
    using round_passes_prime [OF pr n dec] mr_witness_bounds [OF n4] by blast
  from rounds_loop_all_pass [OF len this] n odd dec show ?thesis
    by (simp add: is_prime_def)
qed

lemma prime_nat_by_trial:
  assumes "1 < p" and "p < Suc m * Suc m" and "\<forall>d\<in>{2..m}. \<not> d dvd p"
  shows "prime_nat p"
  unfolding prime_nat_def
proof (intro conjI ballI notI)
  show "1 < p" by fact
next
  fix d assume d: "d \<in> {2..<p}" and dv: "d dvd p"
  then obtain e where e: "p = d * e" by (auto simp: dvd_def)
  with d assms(1) have e2: "2 \<le> e" by (cases "e = 0"; cases "e = 1") auto
  from e have ev: "e dvd p" by simp
  from d dv assms(3) have "m < d" by (cases "d \<le> m") auto
  moreover from e2 ev assms(3) have "m < e" by (cases "e \<le> m") auto
  ultimately have "Suc m * Suc m \<le> d * e" by (intro mult_mono) simp_all
  with e assms(2) show False by simp
qed

text \<open>Trial division, to establish the primality of a concrete number by evaluation.\<close>

primrec trial_division :: "nat \<Rightarrow> nat \<Rightarrow> bool" where
  "trial_division 0 p = True"
| "trial_division (Suc m) p = ((Suc m < 2 \<or> \<not> Suc m dvd p) \<and> trial_division m p)"

lemma trial_division_numeral:
  "trial_division (numeral k) p =
     ((numeral k < (2::nat) \<or> \<not> numeral k dvd p) \<and> trial_division (pred_numeral k) p)"
  by (simp add: numeral_eq_Suc)

lemma trial_division_sound: "trial_division m p \<Longrightarrow> \<forall>d\<in>{2..m}. \<not> d dvd p"
proof (induction m)
  case 0
  then show ?case by simp
next
  case (Suc m)
  then have "\<forall>d\<in>{2..m}. \<not> d dvd p" and "Suc m < 2 \<or> \<not> Suc m dvd p" by simp_all
  then show ?case by (auto simp: le_Suc_eq)
qed

lemma p97: "prime_nat 97"
  by (rule prime_nat_by_trial [where m = 9], simp, simp, rule trial_division_sound)
     (simp add: trial_division_numeral)

lemma p7919: "prime_nat 7919"
  by (rule prime_nat_by_trial [where m = 88], simp, simp, rule trial_division_sound)
     (simp add: trial_division_numeral)

section \<open>Evaluating the primality test on concrete numbers\<close>

lemma pm_even: "(b::int) ^ (2 * n) mod m = (b ^ n mod m)\<^sup>2 mod m"
  by (simp add: power_mult power_mod mult.commute)

lemma pm_odd: "(b::int) ^ Suc (2 * n) mod m = ((b ^ n mod m)\<^sup>2 * b) mod m"
proof -
  have e: "b ^ Suc (2 * n) = (b ^ n)\<^sup>2 * b"
    by (simp only: power_Suc power_mult power2_eq_square mult_2 power_add mult_ac)
  have "(b ^ n)\<^sup>2 * b mod m = ((b ^ n)\<^sup>2 mod m) * b mod m"
    by (rule mod_mult_left_eq [symmetric])
  also have "(b ^ n)\<^sup>2 mod m = (b ^ n mod m)\<^sup>2 mod m"
    by (rule power_mod [symmetric])
  also have "((b ^ n mod m)\<^sup>2 mod m) * b mod m = (b ^ n mod m)\<^sup>2 * b mod m"
    by (rule mod_mult_left_eq)
  finally show ?thesis unfolding e .
qed

lemma pow_mod_numeral_simps:
  "pow_mod b (numeral (Num.Bit0 k)) m = (pow_mod b (numeral k) m)\<^sup>2 mod m"
  "pow_mod b (numeral (Num.Bit1 k)) m = ((pow_mod b (numeral k) m)\<^sup>2 * b) mod m"
  "pow_mod b 1 m = b mod m"
proof -
  have n0: "nat (numeral (Num.Bit0 k)) = 2 * nat (numeral k)"
    by (simp add: numeral_Bit0 nat_add_distrib mult_2)
  have n1: "nat (numeral (Num.Bit1 k)) = Suc (2 * nat (numeral k))"
    by (simp add: numeral_Bit1 numeral_Bit0 nat_add_distrib mult_2)
  show "pow_mod b (numeral (Num.Bit0 k)) m = (pow_mod b (numeral k) m)\<^sup>2 mod m"
    unfolding pow_mod_def n0 by (rule pm_even)
  show "pow_mod b (numeral (Num.Bit1 k)) m = ((pow_mod b (numeral k) m)\<^sup>2 * b) mod m"
    unfolding pow_mod_def n1 by (rule pm_odd)
  show "pow_mod b 1 m = b mod m" by (simp add: pow_mod_def)
qed

lemma inner_loop_numeral:
  "inner_loop (numeral k) x n =
     (if pow_mod x 2 n = n - 1 then True else inner_loop (pred_numeral k) (pow_mod x 2 n) n)"
  by (simp add: numeral_eq_Suc Let_def)

lemmas mr_eval = round_passes_def pow_mod_numeral_simps inner_loop_numeral Let_def

lemma liar_790: "round_passes 7921 495 4 790"
  by (simp add: mr_eval)

lemma witness_2_7921: "\<not> round_passes 7921 495 4 2"
  by (simp add: mr_eval)

lemma no_liar_9: "2 \<le> a \<Longrightarrow> a \<le> 6 \<Longrightarrow> \<not> round_passes 9 1 3 a"
proof -
  assume "2 \<le> a" "a \<le> 6"
  then consider "a = 2" | "a = 3" | "a = 4" | "a = 5" | "a = 6" by linarith
  then show ?thesis by cases (simp_all add: mr_eval)
qed

lemma decompose_8: "decompose 8 0 = Some (1, 3)"
  by code_simp

lemma decompose_7920: "decompose 7920 0 = Some (495, 4)"
  by code_simp

lemma is_prime_odd:
  "3 < n \<Longrightarrow> n mod 2 \<noteq> 0 \<Longrightarrow> decompose (n - 1) 0 = Some (d, s) \<Longrightarrow>
   is_prime K n w = rounds_loop (nat (prime_certainty K)) n d s w"
  by (simp add: is_prime_def)

lemma prime_nat_small: "prime_nat 2" "prime_nat 3" "prime_nat 5"
proof -
  show "prime_nat 2" by (rule prime_nat_by_trial [where m = 1]) simp_all
  show "prime_nat 3" by (rule prime_nat_by_trial [where m = 1]) simp_all
  show "prime_nat 5" by (rule prime_nat_by_trial [where m = 2]) simp_all
qed

text \<open>
  C7 (as amended).  For every round count \<open>prime_certainty \<ge> 1\<close> and every random stream
  that holds at least that many draws: \<open>is_prime\<close> returns \<open>True\<close> on 2, 3, 5, 97 and 7919
  and \<open>False\<close> on 4, 9 and 100.  On 7921 it returns \<open>False\<close> when at least one round draws a
  witness that fails the round's test (as the witness 2 does) and \<open>True\<close> when every round
  draws a witness that passes it (as the strong liar 790 does).
\<close>

theorem is_prime_known_values:
  assumes "1 \<le> prime_certainty K"
    and "nat (prime_certainty K) \<le> length (rand_src w)"
  shows "(\<forall>n\<in>{2, 3, 5, 97, 7919}. \<exists>w'. is_prime K n w = Inr (True, w'))
       \<and> (\<forall>n\<in>{4, 9, 100}. \<exists>w'. is_prime K n w = Inr (False, w'))
       \<and> ((\<exists>r\<in>set (take (nat (prime_certainty K)) (rand_src w)).
              \<not> round_passes 7921 495 4 (mr_witness 7921 (int (r mod 2 ^ 16))))
            \<longrightarrow> (\<exists>w'. is_prime K 7921 w = Inr (False, w')))
       \<and> ((\<forall>r\<in>set (take (nat (prime_certainty K)) (rand_src w)).
              round_passes 7921 495 4 (mr_witness 7921 (int (r mod 2 ^ 16))))
            \<longrightarrow> (\<exists>w'. is_prime K 7921 w = Inr (True, w')))
       \<and> \<not> round_passes 7921 495 4 2 \<and> round_passes 7921 495 4 790"
proof -
  define k where "k = nat (prime_certainty K)"
  from assms have k: "1 \<le> k" "k \<le> length (rand_src w)" by (simp_all add: k_def)
  have primes: "\<exists>w'. is_prime K n w = Inr (True, w')" if "prime_nat (nat n)" for n
    using that assms(2) by (rule is_prime_complete)
  have p: "\<forall>n\<in>{2, 3, 5, 97, 7919}. \<exists>w'. is_prime K n w = Inr (True, w')"
    using primes [of 2] primes [of 3] primes [of 5] primes [of 97] primes [of 7919]
    by (simp add: prime_nat_small p97 p7919)
  have even: "is_prime K 4 w = Inr (False, w)" "is_prime K 100 w = Inr (False, w)"
    by (simp_all add: is_prime_def)
  have nine: "\<exists>w'. is_prime K 9 w = Inr (False, w')"
  proof -
    from k obtain r where r: "r \<in> set (take k (rand_src w))"
      by (cases "rand_src w"; cases k) auto
    have "mr_witness 9 (int (r mod 2 ^ 16)) \<le> 6" "2 \<le> mr_witness 9 (int (r mod 2 ^ 16))"
      by (simp_all add: mr_witness_def)
    then have "\<not> round_passes 9 1 3 (mr_witness 9 (int (r mod 2 ^ 16)))"
      by (intro no_liar_9)
    with r have "\<exists>r\<in>set (take k (rand_src w)).
        \<not> round_passes 9 1 3 (mr_witness 9 (int (r mod 2 ^ 16)))" by blast
    from rounds_loop_some_fail [OF k(2) this] show ?thesis
      by (simp add: is_prime_odd [of 9 1 3] decompose_8 k_def)
  qed
  have u: "is_prime K 7921 w = rounds_loop k 7921 495 4 w"
    by (simp add: is_prime_odd [of 7921 495 4] decompose_7920 k_def)
  have f: "(\<exists>r\<in>set (take k (rand_src w)).
              \<not> round_passes 7921 495 4 (mr_witness 7921 (int (r mod 2 ^ 16))))
            \<longrightarrow> (\<exists>w'. is_prime K 7921 w = Inr (False, w'))"
    unfolding u using rounds_loop_some_fail [OF k(2)] by blast
  have t: "(\<forall>r\<in>set (take k (rand_src w)).
              round_passes 7921 495 4 (mr_witness 7921 (int (r mod 2 ^ 16))))
            \<longrightarrow> (\<exists>w'. is_prime K 7921 w = Inr (True, w'))"
    unfolding u using rounds_loop_all_pass [OF k(2)] by blast
  from p even nine f t witness_2_7921 liar_790 show ?thesis
    unfolding k_def by simp
qed

theorem is_prime_known_values_witness:
  "(\<exists>w'. is_prime (MicroRSA 384) 7919 \<lparr>rand_src = [0, 0, 0, 0, 0], clock = []\<rparr> = Inr (True, w'))
   \<and> (\<exists>w'. is_prime (MicroRSA 384) 9 \<lparr>rand_src = [0, 0, 0, 0, 0], clock = []\<rparr> = Inr (False, w'))
   \<and> (\<exists>w'. is_prime (MicroRSA 384) 7921 \<lparr>rand_src = [0, 0, 0, 0, 0], clock = []\<rparr> = Inr (False, w'))"
proof -
  let ?K = "MicroRSA 384" and ?w = "\<lparr>rand_src = [0, 0, 0, 0, 0], clock = []\<rparr>"
  have a: "1 \<le> prime_certainty ?K" "nat (prime_certainty ?K) \<le> length (rand_src ?w)"
    by (simp_all add: MicroRSA_def)
  have "mr_witness 7921 (int (0 mod 2 ^ 16)) = 2" by (simp add: mr_witness_def)
  with witness_2_7921
  have e: "\<exists>r\<in>set (take (nat (prime_certainty ?K)) (rand_src ?w)).
              \<not> round_passes 7921 495 4 (mr_witness 7921 (int (r mod 2 ^ 16)))"
    by (simp add: MicroRSA_def)
  from is_prime_known_values [OF a] e show ?thesis by blast
qed

text \<open>
  C7 as stated says \<open>False\<close> on 7921 for every random stream.  With the default five rounds
  and the 16-bit draw 788 in each of them, the witness is \<open>788 mod 7917 + 2 = 790\<close>, a strong
  liar for \<open>7921 = 89 * 89\<close>, and \<open>is_prime\<close> returns \<open>True\<close>.
\<close>

theorem is_prime_7921_counterexample:
  "is_prime (MicroRSA 384) 7921 \<lparr>rand_src = [788, 788, 788, 788, 788], clock = []\<rparr>
     = Inr (True, \<lparr>rand_src = [], clock = []\<rparr>)"
proof -
  let ?w = "\<lparr>rand_src = [788, 788, 788, 788, 788], clock = []\<rparr>"
  have m: "mr_witness 7921 (int (788 mod 2 ^ 16)) = 790" by (simp add: mr_witness_def)
  have "\<forall>r\<in>set (take 5 (rand_src ?w)).
          round_passes 7921 495 4 (mr_witness 7921 (int (r mod 2 ^ 16)))"
    using liar_790 m by simp
  from rounds_loop_all_pass [OF _ this] show ?thesis
    by (simp add: is_prime_odd [of 7921 495 4] decompose_7920 MicroRSA_def)
qed

section \<open>RSA/RSA.py: prime generation and key generation\<close>

lemma getrandbits_clock: "getrandbits k w = Inr (r, w') \<Longrightarrow> clock w' = clock w"
  by (auto simp: getrandbits_def split: list.splits)

lemma ticks_ms_consumes:
  "ticks_ms w = Inr (t, w') \<Longrightarrow> length (clock w') < length (clock w)"
  by (auto simp: ticks_ms_def split: list.splits)

lemma generate_prime_candidate_clock:
  "generate_prime_candidate K w = Inr (p, w') \<Longrightarrow> clock w' = clock w"
proof (induction K w rule: generate_prime_candidate.induct)
  case (1 K w)
  from "1.prems" obtain r w1 where g: "getrandbits 32 w = Inr (r, w1)"
    by (subst (asm) generate_prime_candidate.simps) (auto split: sum.splits)
  show ?case
  proof (cases "r < 3")
    case True
    with g "1.prems" have "generate_prime_candidate K w1 = Inr (p, w')"
      by (subst (asm) generate_prime_candidate.simps) simp
    with "1.IH" [OF g refl True] getrandbits_clock [OF g] show ?thesis by simp
  next
    case False
    with g "1.prems" getrandbits_clock [OF g] show ?thesis
      by (subst (asm) generate_prime_candidate.simps) (auto split: if_splits)
  qed
qed

lemma rounds_loop_clock:
  "rounds_loop k n d s w = Inr (b, w') \<Longrightarrow> clock w' = clock w"
proof (induction k arbitrary: w)
  case 0
  then show ?case by simp
next
  case (Suc k)
  from Suc.prems obtain r w1 where g: "getrandbits 16 w = Inr (r, w1)"
    by (auto split: sum.splits)
  from Suc.prems have "rounds_loop k n d s w1 = Inr (b, w') \<or> w' = w1"
    by (auto simp: rounds_loop_Suc [OF g] simp del: rounds_loop.simps split: if_splits)
  with Suc.IH [of w1] getrandbits_clock [OF g] show ?case by auto
qed

lemma is_prime_clock: "is_prime K n w = Inr (b, w') \<Longrightarrow> clock w' = clock w"
  by (auto simp: is_prime_def split: if_splits option.splits dest: rounds_loop_clock)

text \<open>
  \<open>generate_prime\<close>: read the clock, then up to \<open>max_attempts\<close> times draw a candidate and
  test it; return the first candidate that passes; give up (\<open>ValueError\<close>) when more than
  8000 ms have passed after a failed test, or when the attempts are used up.
\<close>

fun attempts_loop :: "nat \<Rightarrow> micro_rsa \<Rightarrow> int \<Rightarrow> world \<Rightarrow> error + (int \<times> world)" where
  "attempts_loop 0 K start_time w = Inl ValueError"
| "attempts_loop (Suc k) K start_time w =
     (case generate_prime_candidate K w of
        Inl err \<Rightarrow> Inl err
      | Inr (candidate, w1) \<Rightarrow>
          (case is_prime K candidate w1 of
             Inl err \<Rightarrow> Inl err
           | Inr (b, w2) \<Rightarrow>
               if b then Inr (candidate, w2)
               else (case ticks_ms w2 of
                       Inl err \<Rightarrow> Inl err
                     | Inr (now, w3) \<Rightarrow>
                         if ticks_diff now start_time > 8000 then Inl ValueError
                         else attempts_loop k K start_time w3)))"

definition generate_prime :: "micro_rsa \<Rightarrow> world \<Rightarrow> error + (int \<times> world)" where
  "generate_prime K w =
     (case ticks_ms w of
        Inl err \<Rightarrow> Inl err
      | Inr (start_time, w1) \<Rightarrow> attempts_loop (nat (max_attempts K)) K start_time w1)"

lemma attempts_loop_clock:
  "attempts_loop k K st w = Inr (p, w') \<Longrightarrow> length (clock w') \<le> length (clock w)"
proof (induction k arbitrary: w)
  case 0
  then show ?case by simp
next
  case (Suc k)
  from Suc.prems obtain c w1 b w2 where
    c: "generate_prime_candidate K w = Inr (c, w1)" and ip: "is_prime K c w1 = Inr (b, w2)"
    by (auto split: sum.splits)
  from generate_prime_candidate_clock [OF c] is_prime_clock [OF ip]
  have cl: "clock w2 = clock w" by simp
  show ?case
  proof (cases b)
    case True
    with Suc.prems c ip cl show ?thesis by simp
  next
    case False
    with Suc.prems c ip obtain now w3 where
      t: "ticks_ms w2 = Inr (now, w3)" and r: "attempts_loop k K st w3 = Inr (p, w')"
      by (auto split: sum.splits if_splits)
    from Suc.IH [OF r] ticks_ms_consumes [OF t] cl show ?thesis by simp
  qed
qed

lemma generate_prime_consumes:
  "generate_prime K w = Inr (p, w') \<Longrightarrow> length (clock w') < length (clock w)"
  by (auto simp: generate_prime_def split: sum.splits
      dest!: attempts_loop_clock ticks_ms_consumes)

text \<open>The loop \<open>while p == q: q = self.generate_prime()\<close>; its state is \<open>q\<close>.\<close>

function distinct_loop :: "micro_rsa \<Rightarrow> int \<Rightarrow> int \<Rightarrow> world \<Rightarrow> error + (int \<times> world)" where
  "distinct_loop K p q w =
     (if p = q then
        (case generate_prime K w of
           Inl err \<Rightarrow> Inl err
         | Inr (q', w') \<Rightarrow> distinct_loop K p q' w')
      else Inr (q, w))"
  by pat_completeness auto
termination
  by (relation "measure (\<lambda>(K, p, q, w). length (clock w))")
     (auto dest: generate_prime_consumes)

declare distinct_loop.simps [simp del]

text \<open>
  The loop \<open>while self.gcd(self.e, phi) != 1\<close>, which draws \<open>p\<close> and \<open>q\<close> anew and recomputes
  \<open>n\<close> and \<open>phi\<close> from them.  At the head of the loop \<open>phi\<close> is \<open>(p - 1) * (q - 1)\<close>, so the
  state is the pair \<open>(p, q)\<close>.
\<close>

function coprime_loop :: "micro_rsa \<Rightarrow> int \<Rightarrow> int \<Rightarrow> world \<Rightarrow> error + ((int \<times> int) \<times> world)" where
  "coprime_loop K p q w =
     (if gcd_rsa (rsa_e K) ((p - 1) * (q - 1)) \<noteq> 1 then
        (case generate_prime K w of
           Inl err \<Rightarrow> Inl err
         | Inr (p', w1) \<Rightarrow>
             (case generate_prime K w1 of
                Inl err \<Rightarrow> Inl err
              | Inr (q', w2) \<Rightarrow> coprime_loop K p' q' w2))
      else Inr ((p, q), w))"
  by pat_completeness auto
termination
  by (relation "measure (\<lambda>(K, p, q, w). length (clock w))")
     (auto dest!: generate_prime_consumes)

declare coprime_loop.simps [simp del]

text \<open>The part of \<open>generate_keys\<close> up to the end of the second loop: the primes \<open>p\<close> and
  \<open>q\<close> from which the keys are computed.\<close>

definition generate_keys_primes :: "micro_rsa \<Rightarrow> world \<Rightarrow> error + ((int \<times> int) \<times> world)" where
  "generate_keys_primes K w =
     (case generate_prime K w of
        Inl err \<Rightarrow> Inl err
      | Inr (p, w1) \<Rightarrow>
          (case generate_prime K w1 of
             Inl err \<Rightarrow> Inl err
           | Inr (q, w2) \<Rightarrow>
               (case distinct_loop K p q w2 of
                  Inl err \<Rightarrow> Inl err
                | Inr (q', w3) \<Rightarrow> coprime_loop K p q' w3)))"

text \<open>\<open>generate_keys\<close>: the public key \<open>(n, e)\<close> and the private key \<open>(n, d)\<close>, where
  \<open>d\<close> is what \<open>modinv\<close> returns (an integer or \<open>None\<close>).  The first argument is the
  number of nested calls that the interpreter can still open when \<open>modinv\<close> enters
  \<open>extended_gcd\<close>.\<close>

type_synonym public_key = "int \<times> int"
type_synonym private_key = "int \<times> int option"

definition generate_keys ::
  "nat \<Rightarrow> micro_rsa \<Rightarrow> world \<Rightarrow> error + ((public_key \<times> private_key) \<times> world)" where
  "generate_keys frames K w =
     (case generate_keys_primes K w of
        Inl err \<Rightarrow> Inl err
      | Inr ((p, q), w') \<Rightarrow>
          let n = p * q; phi = (p - 1) * (q - 1) in
          (case modinv frames (rsa_e K) phi of
             Inl err \<Rightarrow> Inl err
           | Inr d \<Rightarrow> Inr (((n, rsa_e K), (n, d)), w')))"

section \<open>RSA/RSA.py: signing and verifying\<close>

text \<open>
  A message is a \<open>str\<close> or a byte string.  A MicroPython \<open>str\<close> is held as its UTF-8 bytes
  and \<open>.encode()\<close> returns them, so \<open>Str\<close> carries those bytes.  \<open>uhashlib.sha256\<close> is a
  library function outside the repository; the model takes the digest function as the
  parameter \<open>H\<close> of every function that hashes.
\<close>

datatype message = Str "byte list" | Bytes "byte list"

type_synonym hashfn = "byte list \<Rightarrow> byte list"

definition hash_message :: "hashfn \<Rightarrow> message \<Rightarrow> byte list" where
  "hash_message H message = (case message of Str bs \<Rightarrow> H bs | Bytes bs \<Rightarrow> H bs)"

text \<open>\<open>int.from_bytes(octets, 'big')\<close>.\<close>

definition os2ip :: "byte list \<Rightarrow> int" where
  "os2ip octets = foldl (\<lambda>acc b. acc * 256 + uint b) 0 octets"

text \<open>\<open>x.to_bytes(x_len, 'big')\<close>: \<open>ValueError\<close> for a negative length, \<open>OverflowError\<close> when
  \<open>x \<ge> 0\<close> does not fit.  MicroPython writes a negative \<open>x\<close> in two's complement; these are
  the digits that floor division gives.\<close>

fun be_digits :: "nat \<Rightarrow> int \<Rightarrow> byte list" where
  "be_digits 0 x = []"
| "be_digits (Suc k) x = be_digits k (x div 256) @ [word_of_int (x mod 256)]"

definition i2osp :: "int \<Rightarrow> int \<Rightarrow> error + byte list" where
  "i2osp x x_len =
     (if x_len < 0 then Inl ValueError
      else if 0 \<le> x \<and> 256 ^ nat x_len \<le> x then Inl OverflowError
      else Inr (be_digits (nat x_len) x))"

text \<open>The built-in \<open>pow(b, e, m)\<close> of MicroPython in all its cases: a zero modulus raises
  \<open>ValueError\<close>; a zero base or a negative exponent gives 0 (so \<open>pow(0, 0, m)\<close> is 0);
  otherwise the result is the modular power.\<close>

definition pow3 :: "int \<Rightarrow> int \<Rightarrow> int \<Rightarrow> error + int" where
  "pow3 b e m =
     (if m = 0 then Inl ValueError
      else if b = 0 \<or> e < 0 then Inr 0
      else Inr (pow_mod b e m))"

lemma pow3_pos: "0 < e \<Longrightarrow> m \<noteq> 0 \<Longrightarrow> pow3 b e m = Inr (pow_mod b e m)"
  by (simp add: pow3_def pow_mod_def zero_power)

definition sign :: "micro_rsa \<Rightarrow> hashfn \<Rightarrow> message \<Rightarrow> private_key \<Rightarrow> error + byte list" where
  "sign K H message private_key =
     (case private_key of
        (n, d) \<Rightarrow>
          let msg_hash = hash_message H message; m = os2ip msg_hash in
          (case d of
             None \<Rightarrow> Inl TypeError
           | Some d' \<Rightarrow>
               (case pow3 m d' n of
                  Inl err \<Rightarrow> Inl err
                | Inr s \<Rightarrow> i2osp s (key_length K div 8))))"

definition verify :: "micro_rsa \<Rightarrow> hashfn \<Rightarrow> message \<Rightarrow> byte list \<Rightarrow> public_key \<Rightarrow> error + bool" where
  "verify K H message signature public_key =
     (case public_key of
        (n, e) \<Rightarrow>
          let msg_hash = hash_message H message; m = os2ip msg_hash; s = os2ip signature in
          (case pow3 s e n of
             Inl err \<Rightarrow> Inl err
           | Inr v \<Rightarrow> Inr (m = v)))"

section \<open>Octet strings\<close>

lemma os2ip_snoc: "os2ip (xs @ [b]) = os2ip xs * 256 + uint b"
  by (simp add: os2ip_def)

lemma os2ip_nonneg: "0 \<le> os2ip xs"
  by (induction xs rule: rev_induct) (simp_all add: os2ip_snoc, simp add: os2ip_def)

lemma uint_byte_of_mod: "uint (word_of_int (x mod 256) :: byte) = x mod 256"
  by (simp add: uint_word_of_int take_bit_eq_mod)

lemma os2ip_be_digits: "0 \<le> x \<Longrightarrow> x < 256 ^ k \<Longrightarrow> os2ip (be_digits k x) = x"
proof (induction k arbitrary: x)
  case 0
  then show ?case by (simp add: os2ip_def)
next
  case (Suc k)
  from Suc.prems have "0 \<le> x div 256" "x div 256 < 256 ^ k"
    by (simp_all add: div_less_iff_less_mult mult.commute pos_imp_zdiv_nonneg_iff)
  with Suc.IH have "os2ip (be_digits k (x div 256)) = x div 256" by simp
  then show ?case by (simp add: os2ip_snoc uint_byte_of_mod)
qed

lemma length_be_digits: "length (be_digits k x) = k"
  by (induction k arbitrary: x) simp_all

section \<open>Correctness of textbook RSA\<close>

lemma prime_pow_cong:
  assumes "prime_nat p" and "0 \<le> m"
  shows "int p dvd m ^ (1 + k * (p - 1)) - m"
proof (cases "int p dvd m")
  case True
  then have "int p dvd m ^ (1 + k * (p - 1))" by simp
  from this True show ?thesis by (rule dvd_diff)
next
  case False
  from assms(1) have p: "1 < p" by (simp add: prime_nat_def)
  from fermat_unit_int [OF assms False] have "m ^ (p - 1) mod int p = 1" .
  then have "(m ^ (p - 1)) ^ k mod int p = 1 ^ k mod int p"
    by (metis power_mod)
  then have "(m ^ (p - 1)) ^ k mod int p = 1 mod int p" by simp
  then have "int p dvd (m ^ (p - 1)) ^ k - 1" by (simp only: mod_eq_dvd_iff)
  then have "int p dvd m * ((m ^ (p - 1)) ^ k - 1)" by (rule dvd_mult)
  also have "m * ((m ^ (p - 1)) ^ k - 1) = m ^ (1 + k * (p - 1)) - m"
    by (simp add: algebra_simps power_mult [symmetric] mult.commute)
  finally show ?thesis .
qed

lemma prime_nat_distinct_coprime:
  assumes "prime_nat p" and "prime_nat q" and "p \<noteq> q"
  shows "coprime (int p) (int q)"
proof -
  from assms(2) have "1 < q" by (simp add: prime_nat_def)
  have "\<not> p dvd q"
  proof
    assume "p dvd q"
    with prime_nat_divisors [OF assms(2)] have "p = 1 \<or> p = q" by blast
    with assms show False by (simp add: prime_nat_def)
  qed
  with assms(1) have "coprime p q" by (rule prime_nat_coprime)
  then show ?thesis by simp
qed

lemma rsa_roundtrip:
  assumes p: "prime_nat p" and q: "prime_nat q" and pq: "p \<noteq> q"
    and ed: "(e * d) mod ((int p - 1) * (int q - 1)) = 1"
    and e: "0 \<le> e" and d: "0 \<le> d"
    and m: "0 \<le> m" "m < int p * int q"
  shows "pow_mod (pow_mod m d (int p * int q)) e (int p * int q) = m"
proof -
  from p q have p1: "1 < p" and q1: "1 < q" by (simp_all add: prime_nat_def)
  define phi where "phi = (p - 1) * (q - 1)"
  from p1 q1 have phi: "int phi = (int p - 1) * (int q - 1)"
    by (simp add: phi_def of_nat_diff)
  define t where "t = nat d * nat e"
  from e d have t: "int t = e * d" by (simp add: t_def mult.commute)
  define j where "j = t div phi"
  from ed have "int t mod int phi = 1" by (simp add: t phi)
  then have "t mod phi = 1" by (metis of_nat_1 of_nat_eq_iff zmod_int)
  then have tj: "t = 1 + j * phi" unfolding j_def
    by (metis add.commute div_mult_mod_eq)
  have "t = 1 + (j * (q - 1)) * (p - 1)" by (simp add: tj phi_def mult_ac)
  with prime_pow_cong [OF p m(1), of "j * (q - 1)"] have dp: "int p dvd m ^ t - m" by simp
  have "t = 1 + (j * (p - 1)) * (q - 1)" by (simp add: tj phi_def mult_ac)
  with prime_pow_cong [OF q m(1), of "j * (p - 1)"] have dq: "int q dvd m ^ t - m" by simp
  from dp dq prime_nat_distinct_coprime [OF p q pq]
  have "int p * int q dvd m ^ t - m" by (rule divides_mult)
  then have "m ^ t mod (int p * int q) = m mod (int p * int q)"
    by (simp only: mod_eq_dvd_iff)
  with m have r: "m ^ t mod (int p * int q) = m" by simp
  have "pow_mod (pow_mod m d (int p * int q)) e (int p * int q)
      = (m ^ nat d) ^ nat e mod (int p * int q)"
    by (simp add: pow_mod_def power_mod)
  also have "(m ^ nat d) ^ nat e = m ^ t" by (simp add: t_def power_mult)
  finally show ?thesis using r by simp
qed

section \<open>Key generation followed by signing and verifying\<close>

lemma coprime_loop_exit:
  "coprime_loop K p q w = Inr ((p', q'), w') \<Longrightarrow>
   gcd_rsa (rsa_e K) ((p' - 1) * (q' - 1)) = 1"
proof (induction K p q w rule: coprime_loop.induct)
  case (1 K p q w)
  show ?case
  proof (cases "gcd_rsa (rsa_e K) ((p - 1) * (q - 1)) \<noteq> 1")
    case True
    with "1.prems" obtain p1 w1 q1 w2 where
      a: "generate_prime K w = Inr (p1, w1)" and b: "generate_prime K w1 = Inr (q1, w2)"
      and c: "coprime_loop K p1 q1 w2 = Inr ((p', q'), w')"
      by (subst (asm) coprime_loop.simps) (auto split: sum.splits)
    from "1.IH" [OF True a refl b refl c] show ?thesis .
  next
    case False
    with "1.prems" show ?thesis by (subst (asm) coprime_loop.simps) simp
  qed
qed

lemma generate_keys_primes_coprime:
  "generate_keys_primes K w = Inr ((p, q), w') \<Longrightarrow>
   gcd_rsa (rsa_e K) ((p - 1) * (q - 1)) = 1"
proof -
  assume "generate_keys_primes K w = Inr ((p, q), w')"
  then obtain p0 q0 w0 where "coprime_loop K p0 q0 w0 = Inr ((p, q), w')"
    by (auto simp: generate_keys_primes_def split: sum.splits)
  then show ?thesis by (rule coprime_loop_exit)
qed

text \<open>
  C1 (as amended).  When \<open>generate_keys\<close> returns a key pair computed from two distinct
  primes \<open>p\<close> and \<open>q\<close>, the digest of the message, read as an integer, is below \<open>n = p * q\<close>,
  and \<open>n\<close> fits the \<open>key_length // 8\<close> bytes of a signature, then \<open>sign\<close> returns a signature
  and \<open>verify\<close> accepts it.
\<close>

theorem sign_verify_roundtrip:
  assumes gk: "generate_keys frames (MicroRSA kl) w = Inr ((public, private), w')"
    and gp: "generate_keys_primes (MicroRSA kl) w = Inr ((p, q), w')"
    and p: "prime_nat (nat p)" and q: "prime_nat (nat q)" and pq: "p \<noteq> q"
    and small: "os2ip (hash_message H message) < p * q"
    and fits: "p * q \<le> 256 ^ nat (key_length (MicroRSA kl) div 8)"
  shows "\<exists>signature. sign (MicroRSA kl) H message private = Inr signature
            \<and> verify (MicroRSA kl) H message signature public = Inr True"
proof -
  let ?K = "MicroRSA kl"
  define n where "n = p * q"
  define phi where "phi = (p - 1) * (q - 1)"
  define m where "m = os2ip (hash_message H message)"
  from p q have p1: "1 < p" and q1: "1 < q" by (simp_all add: prime_nat_def)
  with pq have "2 < p \<or> 2 < q" by linarith
  with p1 q1 have phi2: "1 < phi" unfolding phi_def
    by (smt (verit) mult_le_cancel_left1 mult_pos_pos mult.commute)
  have e: "rsa_e ?K = 65537" by (simp add: MicroRSA_def)
  from generate_keys_primes_coprime [OF gp] have "gcd_rsa 65537 phi = 1"
    by (simp add: e phi_def)
  with phi2 have co: "gcd 65537 phi = 1" by (simp add: gcd_rsa_eq_gcd)
  from gk gp obtain r where r: "modinv frames 65537 phi = Inr r"
    and keys0: "public = (n, 65537)" "private = (n, r)"
    by (auto simp: generate_keys_def e n_def phi_def Let_def split: sum.splits)
  from modinv_result [OF _ _ r] co phi2 obtain d where
    d: "r = Some d" "0 \<le> d" "(65537 * d) mod phi = 1"
    by auto
  from keys0 d(1) have keys: "public = (n, 65537)" "private = (n, Some d)"
    by simp_all
  from p1 q1 have n1: "1 < n" unfolding n_def by (rule less_1_mult)
  then have n0: "0 < n" by simp
  have m0: "0 \<le> m" by (simp add: m_def os2ip_nonneg)
  define s where "s = pow_mod m d n"
  from n0 have s: "0 \<le> s" "s < n" by (simp_all add: s_def pow_mod_def)
  from fits n1 have len: "0 \<le> key_length ?K div 8"
    by (cases "0 \<le> key_length ?K div 8") (simp_all add: n_def)
  from s fits have sb: "s < 256 ^ nat (key_length ?K div 8)" by (simp add: n_def)
  with s len have sg: "i2osp s (key_length ?K div 8) = Inr (be_digits (nat (key_length ?K div 8)) s)"
    by (simp add: i2osp_def)
  from d(3) phi2 have "d \<noteq> 0" by (cases "d = 0") simp_all
  with d(2) have dpos: "0 < d" by simp
  from dpos n0 have "sign ?K H message private = i2osp s (key_length ?K div 8)"
    by (simp add: sign_def keys pow3_pos Let_def s_def m_def)
  with sg have sign: "sign ?K H message private = Inr (be_digits (nat (key_length ?K div 8)) s)"
    by simp
  from s sb
  have rt: "os2ip (be_digits (nat (key_length ?K div 8)) s) = s"
    by (intro os2ip_be_digits) simp_all
  have np: "int (nat p) = p" "int (nat q) = q" using p1 q1 by simp_all
  have ne: "nat p \<noteq> nat q" using pq p1 q1 by simp
  note rr = rsa_roundtrip [OF p q ne, of 65537 d m, unfolded np]
  from d(2,3) m0 small have "pow_mod s 65537 n = m"
    unfolding s_def n_def by (intro rr) (simp_all add: phi_def m_def)
  with n0 have "verify ?K H message (be_digits (nat (key_length ?K div 8)) s) public = Inr True"
    by (simp add: verify_def keys pow3_pos Let_def rt m_def)
  with sign show ?thesis by blast
qed

section \<open>Concrete runs of the key generation\<close>

lemma is_prime_rounds:
  assumes "3 < n" and "n mod 2 \<noteq> 0" and "decompose (n - 1) 0 = Some (d, s)"
    and "length ws = nat (prime_certainty K)"
    and "\<forall>x\<in>set ws. round_passes n d s (mr_witness n (int (x mod 2 ^ 16)))"
  shows "is_prime K n \<lparr>rand_src = ws @ rest, clock = ts\<rparr>
           = Inr (True, \<lparr>rand_src = rest, clock = ts\<rparr>)"
proof -
  let ?w = "\<lparr>rand_src = ws @ rest, clock = ts\<rparr>"
  from assms(4) have "nat (prime_certainty K) \<le> length (rand_src ?w)" by simp
  moreover from assms(4,5) have "\<forall>x\<in>set (take (nat (prime_certainty K)) (rand_src ?w)).
      round_passes n d s (mr_witness n (int (x mod 2 ^ 16)))" by simp
  ultimately have "rounds_loop (nat (prime_certainty K)) n d s ?w
      = Inr (True, ?w\<lparr>rand_src := drop (nat (prime_certainty K)) (rand_src ?w)\<rparr>)"
    by (rule rounds_loop_all_pass)
  with assms(1-4) show ?thesis by (simp add: is_prime_odd)
qed

lemma generate_prime_run:
  assumes "0 < max_attempts K" and "0 \<le> key_length K div 2 - 1"
    and "3 \<le> int (r mod 2 ^ 32)"
    and c: "c = int (r mod 2 ^ 32) OR (push_bit (nat (key_length K div 2 - 1)) 1 OR 1)"
    and "3 < c" and "c mod 2 \<noteq> 0" and "decompose (c - 1) 0 = Some (d, s)"
    and "length ws = nat (prime_certainty K)"
    and "\<forall>x\<in>set ws. round_passes c d s (mr_witness c (int (x mod 2 ^ 16)))"
  shows "generate_prime K \<lparr>rand_src = r # ws @ rest, clock = t # ts\<rparr>
           = Inr (c, \<lparr>rand_src = rest, clock = ts\<rparr>)"
proof -
  from assms(1) obtain k where k: "nat (max_attempts K) = Suc k"
    by (cases "nat (max_attempts K)") auto
  have cand: "generate_prime_candidate K \<lparr>rand_src = r # ws @ rest, clock = ts\<rparr>
      = Inr (c, \<lparr>rand_src = ws @ rest, clock = ts\<rparr>)"
    using assms(2,3) c by (subst generate_prime_candidate.simps) (simp add: getrandbits_def)
  from is_prime_rounds [OF assms(5-9)]
  have "is_prime K c \<lparr>rand_src = ws @ rest, clock = ts\<rparr>
      = Inr (True, \<lparr>rand_src = rest, clock = ts\<rparr>)" .
  with cand show ?thesis by (simp add: generate_prime_def ticks_ms_def k)
qed

lemma distinct_loop_ne: "p \<noteq> q \<Longrightarrow> distinct_loop K p q w = Inr (q, w)"
  by (subst distinct_loop.simps) simp

lemma coprime_loop_done:
  "gcd_rsa (rsa_e K) ((p - 1) * (q - 1)) = 1 \<Longrightarrow> coprime_loop K p q w = Inr ((p, q), w)"
  by (subst coprime_loop.simps) simp

lemma coprime_loop_again:
  "gcd_rsa (rsa_e K) ((p - 1) * (q - 1)) \<noteq> 1 \<Longrightarrow>
   generate_prime K w = Inr (p', w1) \<Longrightarrow> generate_prime K w1 = Inr (q', w2) \<Longrightarrow>
   coprime_loop K p q w = coprime_loop K p' q' w2"
  by (subst coprime_loop.simps) simp

lemma prime_nat_11_13: "prime_nat 11" "prime_nat 13"
proof -
  show "prime_nat 11"
    by (rule prime_nat_by_trial [where m = 3], simp, simp, rule trial_division_sound)
       (simp add: trial_division_numeral)
  show "prime_nat 13"
    by (rule prime_nat_by_trial [where m = 3], simp, simp, rule trial_division_sound)
       (simp add: trial_division_numeral)
qed

text \<open>
  A run of \<open>generate_keys\<close> with \<open>key_length = 8\<close>: the 32-bit draws 3 and 5 give the
  candidates \<open>3 | 8 | 1 = 11\<close> and \<open>5 | 8 | 1 = 13\<close>; every 16-bit draw for a witness is 0.
  The interpreter has room for 16 nested calls; \<open>extended_gcd(65537, 120)\<close> takes 5.
\<close>

definition small_world :: world where
  "small_world = \<lparr>rand_src = [3, 0, 0, 0, 0, 0, 5, 0, 0, 0, 0, 0], clock = [0, 0]\<rparr>"

lemma small_primes_run:
  "generate_keys_primes (MicroRSA 8) small_world = Inr ((11, 13), \<lparr>rand_src = [], clock = []\<rparr>)"
proof -
  let ?K = "MicroRSA 8"
  have K: "0 < max_attempts ?K" "0 \<le> key_length ?K div 2 - 1"
    "nat (prime_certainty ?K) = 5" "nat (key_length ?K div 2 - 1) = 3" "rsa_e ?K = 65537"
    by (simp_all add: MicroRSA_def)
  have d11: "decompose (11 - 1) 0 = Some (5, 1)" and d13: "decompose (13 - 1) 0 = Some (3, 2)"
    by code_simp+
  have r11: "round_passes 11 5 1 (mr_witness 11 0)"
    and r13: "round_passes 13 3 2 (mr_witness 13 0)"
    by (simp_all add: mr_witness_def mr_eval)
  have g1: "generate_prime ?K \<lparr>rand_src = [3, 0, 0, 0, 0, 0, 5, 0, 0, 0, 0, 0], clock = [0, 0]\<rparr>
      = Inr (11, \<lparr>rand_src = [5, 0, 0, 0, 0, 0], clock = [0]\<rparr>)"
    using generate_prime_run [OF K(1,2) _ _ _ _ d11, where ws = "[0, 0, 0, 0, 0]"
        and rest = "[5, 0, 0, 0, 0, 0]"]
    by (simp add: K r11)
  have g2: "generate_prime ?K \<lparr>rand_src = [5, 0, 0, 0, 0, 0], clock = [0]\<rparr>
      = Inr (13, \<lparr>rand_src = [], clock = []\<rparr>)"
    using generate_prime_run [OF K(1,2) _ _ _ _ d13, where ws = "[0, 0, 0, 0, 0]" and rest = "[]"]
    by (simp add: K r13)
  have g: "gcd_rsa (rsa_e ?K) ((11 - 1) * (13 - 1)) = 1"
    by (simp add: K gcd_rsa.simps)
  from g1 g2 show ?thesis
    by (simp add: generate_keys_primes_def small_world_def distinct_loop_ne
        coprime_loop_done [OF g])
qed

lemma small_keys_run:
  "generate_keys 16 (MicroRSA 8) small_world
     = Inr (((143, 65537), (143, Some 113)), \<lparr>rand_src = [], clock = []\<rparr>)"
proof -
  have "modinv 16 65537 120 = Inr (Some 113)"
    by (simp add: modinv_def extended_gcd_unfold)
  moreover have "rsa_e (MicroRSA 8) = 65537" by (simp add: MicroRSA_def)
  ultimately show ?thesis
    by (simp add: generate_keys_def small_primes_run)
qed


lemma os2ip_zeros: "os2ip (replicate k 0) = 0"
  by (induction k) (simp_all add: os2ip_def)

theorem sign_verify_roundtrip_witness:
  "generate_keys 16 (MicroRSA 8) small_world
     = Inr (((143, 65537), (143, Some 113)), \<lparr>rand_src = [], clock = []\<rparr>)
   \<and> (\<exists>signature.
         sign (MicroRSA 8) (\<lambda>bs. replicate 31 0 @ [5]) (Bytes []) (143, Some 113) = Inr signature
       \<and> verify (MicroRSA 8) (\<lambda>bs. replicate 31 0 @ [5]) (Bytes []) signature (143, 65537)
           = Inr True)"
proof -
  let ?H = "\<lambda>bs::byte list. replicate 31 (0::byte) @ [5]"
  have m: "os2ip (hash_message ?H (Bytes [])) = 5"
    by (simp add: hash_message_def os2ip_snoc os2ip_zeros)
  have "prime_nat (nat 11)" "prime_nat (nat 13)" by (simp_all add: prime_nat_11_13)
  moreover have "(11::int) \<noteq> 13" by simp
  moreover from m have "os2ip (hash_message ?H (Bytes [])) < 11 * 13" by simp
  moreover have "(11::int) * 13 \<le> 256 ^ nat (key_length (MicroRSA 8) div 8)"
    by (simp add: MicroRSA_def)
  ultimately show ?thesis
    using sign_verify_roundtrip [OF small_keys_run small_primes_run, of ?H "Bytes []"]
      small_keys_run by blast
qed

lemma K64:
  "0 < max_attempts (MicroRSA 64)" "0 \<le> key_length (MicroRSA 64) div 2 - 1"
  "nat (prime_certainty (MicroRSA 64)) = 5" "nat (key_length (MicroRSA 64) div 2 - 1) = 31"
  "rsa_e (MicroRSA 64) = 65537" "key_length (MicroRSA 64) div 8 = 8"
  by (simp_all add: MicroRSA_def)

lemma run_2148696083:
  "generate_prime (MicroRSA 64) \<lparr>rand_src = 2148696083 # 0 # 0 # 0 # 0 # 0 # rest, clock = t # ts\<rparr>
     = Inr (2148696083, \<lparr>rand_src = rest, clock = ts\<rparr>)"
proof -
  have d: "decompose (2148696083 - 1) 0 = Some (1074348041, 1)" by code_simp
  have r: "round_passes 2148696083 1074348041 1 (mr_witness 2148696083 0)"
    by (simp add: mr_witness_def mr_eval)
  show ?thesis
    using generate_prime_run [OF K64(1,2) _ _ _ _ d, where ws = "[0, 0, 0, 0, 0]" and rest = rest]
    by (simp add: K64 r)
qed

lemma run_2147483659:
  "generate_prime (MicroRSA 64) \<lparr>rand_src = 2147483659 # 0 # 0 # 0 # 0 # 0 # rest, clock = t # ts\<rparr>
     = Inr (2147483659, \<lparr>rand_src = rest, clock = ts\<rparr>)"
proof -
  have d: "decompose (2147483659 - 1) 0 = Some (1073741829, 1)" by code_simp
  have r: "round_passes 2147483659 1073741829 1 (mr_witness 2147483659 0)"
    by (simp add: mr_witness_def mr_eval)
  show ?thesis
    using generate_prime_run [OF K64(1,2) _ _ _ _ d, where ws = "[0, 0, 0, 0, 0]" and rest = rest]
    by (simp add: K64 r)
qed

lemma run_2147483693:
  "generate_prime (MicroRSA 64) \<lparr>rand_src = 2147483693 # 0 # 0 # 0 # 0 # 0 # rest, clock = t # ts\<rparr>
     = Inr (2147483693, \<lparr>rand_src = rest, clock = ts\<rparr>)"
proof -
  have d: "decompose (2147483693 - 1) 0 = Some (536870923, 2)" by code_simp
  have r: "round_passes 2147483693 536870923 2 (mr_witness 2147483693 0)"
    by (simp add: mr_witness_def mr_eval)
  show ?thesis
    using generate_prime_run [OF K64(1,2) _ _ _ _ d, where ws = "[0, 0, 0, 0, 0]" and rest = rest]
    by (simp add: K64 r)
qed

lemma square_not_distinct_primes:
  assumes "prime_nat p" and "prime_nat q" and "p \<noteq> q"
  shows "p * q \<noteq> c * c"
proof
  assume e: "p * q = c * c"
  then have "p dvd c * c" by (metis dvd_triv_left)
  with prime_nat_dvd_mult [OF assms(1)] have "p dvd c" by blast
  then obtain k where k: "c = p * k" by (auto simp: dvd_def)
  from assms(1) have p0: "0 < p" by (simp add: prime_nat_def)
  from e k have "p * q = p * (p * k * k)" by (simp add: mult_ac)
  with p0 have "q = p * (k * k)" by (simp add: mult_ac)
  then have "p dvd q" by simp
  with prime_nat_divisors [OF assms(2)] have "p = 1 \<or> p = q" by blast
  with assms show False by (simp add: prime_nat_def)
qed

text \<open>
  A run of \<open>generate_keys\<close> with \<open>key_length = 64\<close>.  The random source delivers the primes
  2148696083 and 2147483659 first; \<open>65537\<close> divides \<open>2148696083 - 1\<close>, so the second loop
  draws again, and the source then delivers the prime 2147483693 twice.  Every 16-bit draw
  for a witness is 0, and the clock stands still.  The recursion of
  \<open>extended_gcd(65537, 2147483692 * 2147483692)\<close> takes 13 frames; the run is the same for
  every interpreter that has room for them.
\<close>

definition retry_world :: world where
  "retry_world =
     \<lparr>rand_src = [2148696083, 0, 0, 0, 0, 0, 2147483659, 0, 0, 0, 0, 0,
                  2147483693, 0, 0, 0, 0, 0, 2147483693, 0, 0, 0, 0, 0],
      clock = [0, 0, 0, 0]\<rparr>"

lemma retry_primes_run:
  "generate_keys_primes (MicroRSA 64) retry_world
     = Inr ((2147483693, 2147483693), \<lparr>rand_src = [], clock = []\<rparr>)"
proof -
  let ?K = "MicroRSA 64"
  have g1: "gcd_rsa (rsa_e ?K) ((2148696083 - 1) * (2147483659 - 1)) \<noteq> 1"
    by (simp add: K64 gcd_rsa.simps)
  have g2: "gcd_rsa (rsa_e ?K) ((2147483693 - 1) * (2147483693 - 1)) = 1"
    by (simp add: K64 gcd_rsa.simps)
  have c: "coprime_loop ?K 2148696083 2147483659
             \<lparr>rand_src = [2147483693, 0, 0, 0, 0, 0, 2147483693, 0, 0, 0, 0, 0], clock = [0, 0]\<rparr>
           = Inr ((2147483693, 2147483693), \<lparr>rand_src = [], clock = []\<rparr>)"
    using coprime_loop_again [OF g1
        run_2147483693 [of "[2147483693, 0, 0, 0, 0, 0]" 0 "[0]"]
        run_2147483693 [of "[]" 0 "[]"]]
    by (simp add: coprime_loop_done [OF g2])
  from run_2148696083 [of "[2147483659, 0, 0, 0, 0, 0,
        2147483693, 0, 0, 0, 0, 0, 2147483693, 0, 0, 0, 0, 0]" 0 "[0, 0, 0]"]
    run_2147483659 [of "[2147483693, 0, 0, 0, 0, 0, 2147483693, 0, 0, 0, 0, 0]" 0 "[0, 0]"] c
  show ?thesis
    by (simp add: generate_keys_primes_def retry_world_def distinct_loop_ne)
qed

text \<open>
  C5.  The claim is that every returned key pair has \<open>n = p * q\<close> for two distinct primes.
  On the run above the second loop replaces \<open>p\<close> and \<open>q\<close> without comparing them, and
  \<open>generate_keys\<close> returns \<open>n = 2147483693 * 2147483693\<close>, which is not a product of two
  distinct primes.  (The other half of the claim holds: the loop ends only when
  \<open>gcd(e, phi) = 1\<close>, lemma \<open>generate_keys_primes_coprime\<close>.)
\<close>

theorem retry_loop_equal_primes:
  "generate_keys (13 + extra) (MicroRSA 64) retry_world
     = Inr (((2147483693 * 2147483693, 65537),
             (2147483693 * 2147483693, Some 2498263506439621489)),
            \<lparr>rand_src = [], clock = []\<rparr>)
   \<and> generate_keys_primes (MicroRSA 64) retry_world
     = Inr ((2147483693, 2147483693), \<lparr>rand_src = [], clock = []\<rparr>)
   \<and> \<not> (\<exists>p q. prime_nat p \<and> prime_nat q \<and> p \<noteq> q \<and> p * q = 2147483693 * 2147483693)"
proof -
  have "modinv 13 65537 ((2147483693 - 1) * (2147483693 - 1)) = Inr (Some 2498263506439621489)"
    by (simp add: modinv_def extended_gcd_unfold)
  then have "modinv (13 + extra) 65537 ((2147483693 - 1) * (2147483693 - 1))
      = Inr (Some 2498263506439621489)"
    by (rule modinv_more)
  then have "generate_keys (13 + extra) (MicroRSA 64) retry_world
     = Inr (((2147483693 * 2147483693, 65537),
             (2147483693 * 2147483693, Some 2498263506439621489)),
            \<lparr>rand_src = [], clock = []\<rparr>)"
    by (simp add: generate_keys_def retry_primes_run K64)
  with retry_primes_run square_not_distinct_primes show ?thesis by blast
qed

text \<open>The run itself, read off the theorem: the key pair and the equal primes behind it.\<close>

theorem retry_loop_equal_primes_witness:
  "generate_keys 16 (MicroRSA 64) retry_world
     = Inr (((2147483693 * 2147483693, 65537),
             (2147483693 * 2147483693, Some 2498263506439621489)),
            \<lparr>rand_src = [], clock = []\<rparr>)
   \<and> generate_keys_primes (MicroRSA 64) retry_world
     = Inr ((2147483693, 2147483693), \<lparr>rand_src = [], clock = []\<rparr>)"
  using retry_loop_equal_primes [of 3] by simp

text \<open>The SHA-256 digest of the three bytes \<open>abc\<close>.\<close>

definition sha256_abc :: "byte list" where
  "sha256_abc =
     [186, 120, 22, 191, 143, 1, 207, 234, 65, 65, 64, 222, 93, 174, 34, 35,
      176, 3, 97, 163, 150, 23, 122, 156, 180, 16, 255, 97, 242, 0, 21, 173]"

lemma digest_abc:
  "os2ip sha256_abc = 84342368487090800366523834928142263660104883695016514377462985829716817089965"
  by (simp add: os2ip_def sha256_abc_def)

lemma sign_abc:
  "sign (MicroRSA 8) (\<lambda>bs. sha256_abc) (Bytes [97, 98, 99]) (143, Some 113) = Inr [13]"
proof -
  have "pow_mod 84342368487090800366523834928142263660104883695016514377462985829716817089965
          113 143 = 13"
    by (simp add: pow_mod_numeral_simps)
  moreover have "key_length (MicroRSA 8) div 8 = 1" by (simp add: MicroRSA_def)
  ultimately show ?thesis
    by (simp add: sign_def hash_message_def digest_abc pow3_def i2osp_def)
qed

lemma verify_abc:
  "verify (MicroRSA 8) (\<lambda>bs. sha256_abc) (Bytes [97, 98, 99]) [13] (143, 65537) = Inr False"
proof -
  have s: "os2ip [13] = 13"
    by (simp add: os2ip_def)
  have "pow_mod 13 65537 143 = 117"
    by (simp add: pow_mod_numeral_simps)
  then show ?thesis
    by (simp add: verify_def hash_message_def digest_abc pow3_def s)
qed

text \<open>
  C1 as stated covers every key pair that \<open>generate_keys\<close> returns.  With \<open>key_length = 8\<close>
  the run \<open>small_world\<close> returns the keys of \<open>n = 11 * 13 = 143\<close>; the digest of the
  message \<open>abc\<close> is a 256-bit number, far above \<open>n\<close>; \<open>sign\<close> returns the one-byte signature
  13 and \<open>verify\<close> compares the digest with \<open>13 ^ 65537 mod 143 = 117\<close> and returns \<open>False\<close>.
\<close>

theorem sign_verify_short_key_counterexample:
  "generate_keys 16 (MicroRSA 8) small_world
     = Inr (((143, 65537), (143, Some 113)), \<lparr>rand_src = [], clock = []\<rparr>)
   \<and> sign (MicroRSA 8) (\<lambda>bs. sha256_abc) (Bytes [97, 98, 99]) (143, Some 113) = Inr [13]
   \<and> verify (MicroRSA 8) (\<lambda>bs. sha256_abc) (Bytes [97, 98, 99]) [13] (143, 65537)
     = Inr False"
  using small_keys_run sign_abc verify_abc by simp

section \<open>ed25519/ed25519.py: constants and field arithmetic\<close>

text \<open>
  The attributes set by \<open>MicroEd25519.__init__\<close>: \<open>self.p\<close>, \<open>self.d\<close>, \<open>self.l\<close> and
  \<open>self.G\<close> are the constants \<open>ed_p\<close>, \<open>ed_d\<close>, \<open>ed_l\<close> and \<open>ed_G\<close>; \<open>self.inv\<close> is \<open>inv_ed\<close>.
  The LED on pin 25 is switched on and off around each operation and has no part in any
  result; it is not modelled.
\<close>

definition ed_p :: int where
  "ed_p = 2 ^ 255 - 19"

definition inv_ed :: "int \<Rightarrow> int" where
  "inv_ed x = pow_mod x (ed_p - 2) ed_p"

definition ed_d :: int where
  "ed_d = (- 121665 * inv_ed 121666) mod ed_p"

definition ed_l :: int where
  "ed_l = 2 ^ 252 + 27742317777372353535851937790883648493"

definition point_compress :: "int \<Rightarrow> int \<Rightarrow> int" where
  "point_compress x y = (x AND (push_bit 255 1 - 1)) OR push_bit 255 (y AND 1)"

definition ed_G :: int where
  "ed_G = point_compress
     15112221349535400772501151409588531511454012693041857206046113283949847762202
     46316835694926478169428394003475163141307993866256225615783033603165251855960"

text \<open>
  A point is a Python tuple, modelled as the list of its components.  \<open>point_decompress\<close>
  has no \<open>raise\<close>; it fails only on \<open>None\<close> (\<open>TypeError\<close> of \<open>None & int\<close>), which
  \<open>verify\<close> can pass to it.
\<close>

definition point_decompress :: "int option \<Rightarrow> error + int list" where
  "point_decompress compressed =
     (case compressed of
        None \<Rightarrow> Inl TypeError
      | Some c \<Rightarrow>
          let x = c AND (push_bit 255 1 - 1);
              y_sign = drop_bit 255 c AND 1;
              y2 = (x * x - 1) * inv_ed (ed_d * x * x + 1) mod ed_p;
              y = pow_mod y2 ((ed_p + 3) div 8) ed_p;
              y = (if (y * y - y2) mod ed_p \<noteq> 0
                   then y * pow_mod 2 ((ed_p - 1) div 4) ed_p mod ed_p else y);
              y = (if y mod 2 \<noteq> y_sign then (- y) mod ed_p else y)
          in Inr [x, y])"

text \<open>\<open>point_add\<close>; unpacking a tuple that has not two components raises \<open>ValueError\<close>.\<close>

definition point_add :: "int list option \<Rightarrow> int list option \<Rightarrow> error + int list option" where
  "point_add P Q =
     (case P of
        None \<Rightarrow> Inr Q
      | Some Pt \<Rightarrow>
          (case Q of
             None \<Rightarrow> Inr P
           | Some Qt \<Rightarrow>
               (case (Pt, Qt) of
                  ([x1, y1], [x2, y2]) \<Rightarrow>
                    let A = (y1 - y2) mod ed_p;
                        B = (x1 - x2) mod ed_p;
                        C = (y1 + y2) mod ed_p;
                        D = (x1 + x2) mod ed_p;
                        E = (A * A) mod ed_p;
                        F = (B * B) mod ed_p;
                        G = (C * C) mod ed_p;
                        H = (D * D) mod ed_p;
                        I = (E * F) mod ed_p;
                        J = (G * H) mod ed_p;
                        K = (J - I) mod ed_p;
                        x3 = ((A * B) * (J + ed_d * I)) mod ed_p;
                        y3 = ((C * D) * (J - ed_d * I)) mod ed_p;
                        z3 = (K * (ed_p - 1)) mod ed_p;
                        inv_z3 = inv_ed z3;
                        x3 = (x3 * inv_z3) mod ed_p;
                        y3 = (y3 * inv_z3) mod ed_p
                    in Inr (Some [x3, y3])
                | _ \<Rightarrow> Inl ValueError)))"

section \<open>ed25519/ed25519.py: scalar multiplication\<close>

text \<open>The table \<open>points\<close>: entry 0 is the 4-tuple \<open>(0, 1, 1, 0)\<close>, entry 1 is \<open>P\<close>, and the
  loop \<open>for i in range(2, 1 << window_size)\<close> fills entry \<open>i\<close> with
  \<open>point_add(points[i - 1], P)\<close>.\<close>

fun points_loop :: "nat list \<Rightarrow> int list \<Rightarrow> int list option list \<Rightarrow> error + int list option list" where
  "points_loop [] P points = Inr points"
| "points_loop (i # is) P points =
     (case point_add (points ! (i - 1)) (Some P) of
        Inl err \<Rightarrow> Inl err
      | Inr r \<Rightarrow> points_loop is P (points[i := r]))"

definition points_table :: "int list \<Rightarrow> error + int list option list" where
  "points_table P =
     points_loop [2..<8] P ((replicate 8 None)[0 := Some [0, 1, 1, 0], 1 := Some P])"

text \<open>The loop \<open>while k > 0: windows.append(k & mask); k >>= window_size\<close>.\<close>

function windows_of :: "int \<Rightarrow> int list" where
  "windows_of k = (if k > 0 then (k AND 7) # windows_of (drop_bit 3 k) else [])"
  by pat_completeness auto
termination
  by (relation "measure nat") (auto simp: drop_bit_eq_div)

declare windows_of.simps [simp del]

text \<open>The three conditional doublings of one window.\<close>

fun doublings :: "nat \<Rightarrow> int list option \<Rightarrow> error + int list option" where
  "doublings 0 Q = Inr Q"
| "doublings (Suc k) Q =
     (case Q of
        None \<Rightarrow> doublings k Q
      | Some _ \<Rightarrow> (case point_add Q Q of Inl err \<Rightarrow> Inl err | Inr Q' \<Rightarrow> doublings k Q'))"

text \<open>The loop \<open>for i in reversed(range(len(windows)))\<close>, over the windows from the most
  significant one.\<close>

fun windows_loop :: "int list \<Rightarrow> int list option list \<Rightarrow> int list option \<Rightarrow> error + int list option" where
  "windows_loop [] points Q = Inr Q"
| "windows_loop (wv # ws) points Q =
     (case doublings 3 Q of
        Inl err \<Rightarrow> Inl err
      | Inr Q1 \<Rightarrow>
          if wv \<noteq> 0 then
            (case Q1 of
               None \<Rightarrow> windows_loop ws points (points ! nat wv)
             | Some _ \<Rightarrow>
                 (case point_add Q1 (points ! nat wv) of
                    Inl err \<Rightarrow> Inl err
                  | Inr Q2 \<Rightarrow> windows_loop ws points Q2))
          else windows_loop ws points Q1)"

text \<open>\<open>self.point_compress(*Q) if Q else None\<close>: an empty tuple is false as \<open>None\<close> is, and
  a call with other than two arguments raises \<open>TypeError\<close>.\<close>

definition compress_result :: "int list option \<Rightarrow> error + int option" where
  "compress_result Q =
     (case Q of
        None \<Rightarrow> Inr None
      | Some [] \<Rightarrow> Inr None
      | Some [x, y] \<Rightarrow> Inr (Some (point_compress x y))
      | Some _ \<Rightarrow> Inl TypeError)"

definition scalar_mult :: "int \<Rightarrow> int option \<Rightarrow> error + int option" where
  "scalar_mult k P_compressed =
     (case point_decompress P_compressed of
        Inl err \<Rightarrow> Inl err
      | Inr P \<Rightarrow>
          (case points_table P of
             Inl err \<Rightarrow> Inl err
           | Inr points \<Rightarrow>
               (case windows_loop (rev (windows_of k)) points None of
                  Inl err \<Rightarrow> Inl err
                | Inr Q \<Rightarrow> compress_result Q)))"

section \<open>The point arithmetic collapses\<close>

lemma ed_p_gt: "2 < ed_p"
  by (simp add: ed_p_def)

lemma inv_ed_0: "inv_ed 0 = 0"
proof -
  from ed_p_gt have "nat (ed_p - 2) \<noteq> 0" by simp
  then show ?thesis by (simp add: inv_ed_def pow_mod_def zero_power)
qed

lemma sq_neg_mod: "((- y) mod m) * ((- y) mod m) mod m = (y mod m) * (y mod m) mod (m::int)"
  by (simp add: mod_mult_eq)

lemmas zero_arith =
  diff_self diff_0 add_0_left add_0_right mod_0 mult_zero_left mult_zero_right

lemma point_add_double:
  "\<exists>y'. point_add (Some [x, y]) (Some [x, y]) = Inr (Some [0, y'])"
  unfolding point_add_def
  by (simp only: list.case prod.case option.case Let_def zero_arith) blast

lemma point_add_double_x0:
  "point_add (Some [0, y]) (Some [0, y]) = Inr (Some [0, 0])"
  unfolding point_add_def
  by (simp only: list.case prod.case option.case Let_def zero_arith inv_ed_0)

lemma point_add_zero_left:
  "point_add (Some [0, 0]) (Some [x, y]) = Inr (Some [0, 0])"
  unfolding point_add_def
  by (simp only: list.case prod.case option.case Let_def zero_arith sq_neg_mod inv_ed_0)

lemma point_add_pair:
  "\<exists>x3 y3. point_add (Some [x1, y1]) (Some [x2, y2]) = Inr (Some [x3, y3])"
  unfolding point_add_def
  by (simp only: list.case prod.case option.case Let_def) blast

lemma point_decompress_pair:
  "\<exists>y. point_decompress (Some c) = Inr [c AND (push_bit 255 1 - 1), y]"
  unfolding point_decompress_def
  by (simp only: option.case Let_def) blast

definition table_ok :: "int list option list \<Rightarrow> nat \<Rightarrow> bool" where
  "table_ok points j \<longleftrightarrow>
     length points = 8 \<and> (\<forall>i. 1 \<le> i \<and> i < j \<longrightarrow> (\<exists>a b. points ! i = Some [a, b]))"

lemma points_loop_ok:
  "table_ok points j \<Longrightarrow> 2 \<le> j \<Longrightarrow> j \<le> 8 \<Longrightarrow>
   \<exists>points'. points_loop [j..<8] [x, y] points = Inr points' \<and> table_ok points' 8"
proof (induction "8 - j" arbitrary: j points)
  case 0
  then have "j = 8" by simp
  with "0.prems" show ?case by simp
next
  case (Suc n)
  then have j: "j < 8" by simp
  then have up: "[j..<8] = j # [Suc j..<8]" by (simp add: upt_conv_Cons)
  from Suc.prems have "1 \<le> j - 1 \<and> j - 1 < j" by simp
  with Suc.prems(1) obtain a b where prev: "points ! (j - 1) = Some [a, b]"
    unfolding table_ok_def by blast
  from point_add_pair [of a b x y] obtain a' b' where
    pa: "point_add (Some [a, b]) (Some [x, y]) = Inr (Some [a', b'])" by blast
  have ok: "table_ok (points[j := Some [a', b']]) (Suc j)"
    using Suc.prems(1) j unfolding table_ok_def
    by (auto simp: nth_list_update less_Suc_eq)
  from Suc.hyps(2) have "n = 8 - Suc j" by simp
  from Suc.hyps(1) [OF this ok] Suc.prems j obtain points' where
    "points_loop [Suc j..<8] [x, y] (points[j := Some [a', b']]) = Inr points'"
    "table_ok points' 8" by auto
  with prev pa show ?case by (simp add: up)
qed

lemma points_table_ok:
  "\<exists>points. points_table [x, y] = Inr points \<and> table_ok points 8"
proof -
  have "table_ok ((replicate 8 None)[0 := Some [0, 1, 1, 0], 1 := Some [x, y]]) 2"
    unfolding table_ok_def by (auto simp: nth_list_update)
  from points_loop_ok [OF this] show ?thesis by (simp add: points_table_def)
qed

lemma table_ok_nth:
  "table_ok points 8 \<Longrightarrow> 0 < wv \<Longrightarrow> wv < 8 \<Longrightarrow> \<exists>a b. points ! nat wv = Some [a, b]"
proof -
  assume t: "table_ok points 8" and w: "0 < wv" "wv < 8"
  then have "1 \<le> nat wv \<and> nat wv < 8" by linarith
  with t show ?thesis unfolding table_ok_def by blast
qed

lemma and_7: "k AND 7 = k mod (8::int)"
proof -
  have "k AND mask 3 = k mod 2 ^ 3" by (simp only: take_bit_eq_mask [symmetric] take_bit_eq_mod)
  then show ?thesis by (simp add: mask_eq_exp_minus_1)
qed

lemma windows_of_pos:
  "0 < k \<Longrightarrow> \<exists>wv ws. rev (windows_of k) = wv # ws \<and> 0 < wv \<and> wv < 8
      \<and> (8 \<le> k \<longrightarrow> ws \<noteq> []) \<and> (\<forall>v\<in>set ws. 0 \<le> v \<and> v < 8)"
proof (induction k rule: windows_of.induct)
  case (1 k)
  have unf: "windows_of k = (k AND 7) # windows_of (drop_bit 3 k)"
    using "1.prems" by (subst windows_of.simps) simp
  have d: "drop_bit 3 k = k div 8" by (simp add: drop_bit_eq_div)
  have low: "0 \<le> k AND 7" "k AND 7 < 8" by (simp_all add: and_7)
  show ?case
  proof (cases "k < 8")
    case True
    with "1.prems" have "drop_bit 3 k = 0" by (simp add: d)
    then have "windows_of (drop_bit 3 k) = []" by (subst windows_of.simps) simp
    moreover from True "1.prems" have "k AND 7 = k" by (simp add: and_7)
    ultimately show ?thesis using True "1.prems" by (simp add: unf)
  next
    case False
    then have "0 < drop_bit 3 k" by (simp add: d)
    from "1.IH" [OF "1.prems" this] obtain wv ws where
      r: "rev (windows_of (drop_bit 3 k)) = wv # ws" "0 < wv" "wv < 8"
         "\<forall>v\<in>set ws. 0 \<le> v \<and> v < 8" by blast
    with low show ?thesis by (simp add: unf)
  qed
qed

lemma doublings_zero: "doublings k (Some [0, 0]) = Inr (Some [0, 0])"
  by (induction k) (simp_all add: point_add_double_x0)

lemma doublings_3_pair: "doublings 3 (Some [a, b]) = Inr (Some [0, 0])"
proof -
  from point_add_double [of a b] obtain y' where
    "point_add (Some [a, b]) (Some [a, b]) = Inr (Some [0, y'])" by blast
  then show ?thesis
    by (simp add: numeral_3_eq_3 point_add_double_x0)
qed

lemma doublings_None: "doublings k None = Inr None"
  by (induction k) simp_all

lemma window_step_zero:
  assumes "table_ok points 8" and "0 \<le> wv" and "wv < 8"
    and "doublings 3 Q = Inr (Some [0, 0])"
  shows "windows_loop (wv # ws) points Q = windows_loop ws points (Some [0, 0])"
proof (cases "wv = 0")
  case True
  with assms(4) show ?thesis by simp
next
  case False
  with assms(2) have "0 < wv" by simp
  from table_ok_nth [OF assms(1) this assms(3)] obtain a b where
    "points ! nat wv = Some [a, b]" by blast
  with assms(4) False show ?thesis by (simp add: point_add_zero_left)
qed

lemma windows_loop_zero:
  assumes "table_ok points 8"
  shows "\<forall>v\<in>set ws. 0 \<le> v \<and> v < 8 \<Longrightarrow>
         windows_loop ws points (Some [0, 0]) = Inr (Some [0, 0])"
proof (induction ws)
  case Nil
  show ?case by simp
next
  case (Cons wv ws)
  then have "0 \<le> wv" "wv < 8" by simp_all
  from window_step_zero [OF assms this doublings_zero] Cons show ?case by simp
qed

lemma windows_loop_two:
  assumes t: "table_ok points 8" and w: "0 < wv" "wv < 8"
    and ws: "ws \<noteq> []" "\<forall>v\<in>set ws. 0 \<le> v \<and> v < 8"
  shows "windows_loop (wv # ws) points None = Inr (Some [0, 0])"
proof -
  from ws(1) obtain v vs where vs: "ws = v # vs" by (cases ws) auto
  from table_ok_nth [OF t w] obtain a b where p: "points ! nat wv = Some [a, b]" by blast
  from w p have "windows_loop (wv # ws) points None = windows_loop ws points (Some [a, b])"
    by (simp add: doublings_None del: doublings.simps)
  also from ws(2) vs have "0 \<le> v" "v < 8" by simp_all
  from window_step_zero [OF t this doublings_3_pair]
  have "windows_loop ws points (Some [a, b]) = windows_loop vs points (Some [0, 0])"
    by (simp add: vs)
  also from ws(2) vs have "\<dots> = Inr (Some [0, 0])"
    by (intro windows_loop_zero [OF t]) simp
  finally show ?thesis .
qed

lemma point_compress_0: "point_compress 0 0 = 0"
  by (simp add: point_compress_def)

text \<open>Every scalar of at least two base-8 digits is sent to the compressed value 0,
  whatever the point.\<close>

lemma scalar_mult_collapse: "8 \<le> k \<Longrightarrow> scalar_mult k (Some c) = Inr (Some 0)"
proof -
  assume k: "8 \<le> k"
  from point_decompress_pair [of c] obtain x y where
    d: "point_decompress (Some c) = Inr [x, y]" by blast
  from points_table_ok [of x y] obtain points where
    t: "points_table [x, y] = Inr points" "table_ok points 8" by blast
  from k windows_of_pos [of k] obtain wv ws where
    w: "rev (windows_of k) = wv # ws" "0 < wv" "wv < 8" "ws \<noteq> []"
       "\<forall>v\<in>set ws. 0 \<le> v \<and> v < 8" by auto
  from windows_loop_two [OF t(2) w(2-5)] d t(1) w(1) show ?thesis
    by (simp add: scalar_mult_def compress_result_def point_compress_0)
qed

lemma scalar_mult_0: "scalar_mult 0 (Some c) = Inr None"
proof -
  from point_decompress_pair [of c] obtain x y where
    d: "point_decompress (Some c) = Inr [x, y]" by blast
  from points_table_ok [of x y] obtain points where
    t: "points_table [x, y] = Inr points" by blast
  have "windows_of 0 = []" by (subst windows_of.simps) simp
  with d t show ?thesis by (simp add: scalar_mult_def compress_result_def)
qed

section \<open>ed25519/ed25519.py: keys and signatures\<close>

text \<open>\<open>int.from_bytes(bs, 'little')\<close> and \<open>x.to_bytes(n, 'little')\<close>; the latter raises
  \<open>OverflowError\<close> when \<open>x \<ge> 0\<close> does not fit and \<open>AttributeError\<close> when it is called on
  \<open>None\<close>; a negative \<open>x\<close> is written in two's complement, as by \<open>i2osp\<close>.\<close>

definition from_bytes_le :: "byte list \<Rightarrow> int" where
  "from_bytes_le bs = foldr (\<lambda>b acc. uint b + 256 * acc) bs 0"

fun le_digits :: "nat \<Rightarrow> int \<Rightarrow> byte list" where
  "le_digits 0 x = []"
| "le_digits (Suc k) x = word_of_int (x mod 256) # le_digits k (x div 256)"

definition to_bytes_le :: "int option \<Rightarrow> nat \<Rightarrow> error + byte list" where
  "to_bytes_le v n =
     (case v of
        None \<Rightarrow> Inl AttributeError
      | Some x \<Rightarrow>
          if 0 \<le> x \<and> 256 ^ n \<le> x then Inl OverflowError else Inr (le_digits n x))"

text \<open>The three assignments \<open>a &= ~7; a &= ~(1 << 254); a |= (1 << 254)\<close>.\<close>

definition clamp :: "int \<Rightarrow> int" where
  "clamp a = ((a AND NOT 7) AND NOT (push_bit 254 1)) OR push_bit 254 1"

text \<open>
  \<open>generate_secret\<close>: up to five calls of \<open>uos.urandom(32)\<close>.  The source of randomness is
  the list of what the successive calls deliver: \<open>Some seed\<close>, or \<open>None\<close> for a call that
  raises (the bare \<open>except\<close> then waits and tries again).
\<close>

fun secret_loop :: "nat \<Rightarrow> hashfn \<Rightarrow> byte list option list \<Rightarrow> error + (int \<times> byte list option list)" where
  "secret_loop 0 H src = Inl ValueError"
| "secret_loop (Suc k) H [] = Inl InputExhausted"
| "secret_loop (Suc k) H (None # src) = secret_loop k H src"
| "secret_loop (Suc k) H (Some seed # src) =
     (let h = H seed; a = from_bytes_le (take 32 h) in Inr (clamp a, src))"

definition generate_secret :: "hashfn \<Rightarrow> byte list option list \<Rightarrow> error + (int \<times> byte list option list)" where
  "generate_secret H src = secret_loop 5 H src"

definition ed_generate_keys ::
  "hashfn \<Rightarrow> byte list option list \<Rightarrow> error + ((int \<times> int option) \<times> byte list option list)" where
  "ed_generate_keys H src =
     (case generate_secret H src of
        Inl err \<Rightarrow> Inl err
      | Inr (secret, src') \<Rightarrow>
          (case scalar_mult secret (Some ed_G) of
             Inl err \<Rightarrow> Inl err
           | Inr public \<Rightarrow> Inr ((secret, public), src')))"

text \<open>\<open>MicroEd25519.sign\<close>.\<close>

definition ed_sign :: "hashfn \<Rightarrow> byte list \<Rightarrow> int \<Rightarrow> error + byte list" where
  "ed_sign H msg secret =
     (case to_bytes_le (Some secret) 32 of
        Inl err \<Rightarrow> Inl err
      | Inr secret_bytes \<Rightarrow>
          let h = H secret_bytes;
              a = clamp (from_bytes_le (take 32 h));
              r = from_bytes_le (H (drop 32 h @ msg)) mod ed_l
          in (case scalar_mult r (Some ed_G) of
                Inl err \<Rightarrow> Inl err
              | Inr R \<Rightarrow>
                  (case to_bytes_le R 32 of
                     Inl err \<Rightarrow> Inl err
                   | Inr R_bytes \<Rightarrow>
                       (case scalar_mult a (Some ed_G) of
                          Inl err \<Rightarrow> Inl err
                        | Inr A \<Rightarrow>
                            (case to_bytes_le A 32 of
                               Inl err \<Rightarrow> Inl err
                             | Inr A_bytes \<Rightarrow>
                                 let S = (r + from_bytes_le (H (R_bytes @ A_bytes @ msg)) * a)
                                           mod ed_l
                                 in (case to_bytes_le (Some S) 32 of
                                       Inl err \<Rightarrow> Inl err
                                     | Inr S_bytes \<Rightarrow> Inr (R_bytes @ S_bytes)))))))"

text \<open>\<open>MicroEd25519.verify\<close>.  The last line is
  \<open>left == self.point_compress(*right) if right else False\<close>.\<close>

definition ed_verify :: "hashfn \<Rightarrow> byte list \<Rightarrow> byte list \<Rightarrow> int option \<Rightarrow> error + bool" where
  "ed_verify H msg sig public =
     (if length sig \<noteq> 64 then Inr False
      else
        let R = from_bytes_le (take 32 sig);
            S = from_bytes_le (drop 32 sig)
        in if S \<ge> ed_l then Inr False
           else
             (case to_bytes_le public 32 of
                Inl err \<Rightarrow> Inl err
              | Inr A_bytes \<Rightarrow>
                  let h = from_bytes_le (H (take 32 sig @ A_bytes @ msg)) mod ed_l in
                  (case scalar_mult S (Some ed_G) of
                     Inl err \<Rightarrow> Inl err
                   | Inr left \<Rightarrow>
                       (case point_decompress (Some R) of
                          Inl err \<Rightarrow> Inl err
                        | Inr P1 \<Rightarrow>
                            (case scalar_mult h public of
                               Inl err \<Rightarrow> Inl err
                             | Inr hA \<Rightarrow>
                                 (case point_decompress hA of
                                    Inl err \<Rightarrow> Inl err
                                  | Inr P2 \<Rightarrow>
                                      (case point_add (Some P1) (Some P2) of
                                         Inl err \<Rightarrow> Inl err
                                       | Inr right \<Rightarrow>
                                           (case right of
                                              None \<Rightarrow> Inr False
                                            | Some [] \<Rightarrow> Inr False
                                            | Some [x, y] \<Rightarrow> Inr (left = Some (point_compress x y))
                                            | Some _ \<Rightarrow> Inl TypeError))))))))"

text \<open>
  C9.  When the signature is not 64 bytes long, or its last 32 bytes read as a
  little-endian integer are at least the group order \<open>ed_l\<close>, \<open>verify\<close> returns \<open>False\<close>: a
  result, not an exception.
\<close>

theorem ed_verify_rejects:
  assumes "length sig \<noteq> 64 \<or> ed_l \<le> from_bytes_le (drop 32 sig)"
  shows "ed_verify H msg sig public = Inr False"
  using assms by (auto simp: ed_verify_def Let_def)

lemma from_bytes_le_zeros: "from_bytes_le (replicate k 0 @ bs) = 256 ^ k * from_bytes_le bs"
  by (induction k) (simp_all add: from_bytes_le_def)

theorem ed_verify_rejects_witness:
  "ed_verify (\<lambda>_. []) [] [] None = Inr False
   \<and> ed_l \<le> from_bytes_le (drop 32 (replicate 32 0 @ replicate 31 0 @ [255]))
   \<and> ed_verify (\<lambda>_. []) [] (replicate 32 0 @ replicate 31 0 @ [255]) None = Inr False"
proof -
  have "from_bytes_le (replicate 31 0 @ [255]) = 256 ^ 31 * 255"
    by (simp add: from_bytes_le_zeros) (simp add: from_bytes_le_def)
  then have l: "ed_l \<le> from_bytes_le (drop 32 (replicate 32 0 @ replicate 31 0 @ [255]))"
    by (simp add: ed_l_def)
  from ed_verify_rejects [of "[]" "\<lambda>_. []" "[]" None]
    ed_verify_rejects [of "replicate 32 0 @ replicate 31 0 @ [255]" "\<lambda>_. []" "[]" None] l
  show ?thesis by simp
qed

lemma from_bytes_le_Nil: "from_bytes_le [] = 0"
  by (simp add: from_bytes_le_def)

lemma from_bytes_le_Cons: "from_bytes_le (b # bs) = uint b + 256 * from_bytes_le bs"
  by (simp add: from_bytes_le_def)

lemma from_bytes_le_bounds: "0 \<le> from_bytes_le bs \<and> from_bytes_le bs < 256 ^ length bs"
proof (induction bs)
  case Nil
  show ?case by (simp add: from_bytes_le_Nil)
next
  case (Cons b bs)
  have b: "0 \<le> uint b" "uint b < 256"
    using uint_bounded [of b] by simp_all
  from Cons have "from_bytes_le bs + 1 \<le> 256 ^ length bs" by simp
  then have "256 * (from_bytes_le bs + 1) \<le> 256 * 256 ^ length bs" by simp
  with b Cons show ?case by (simp add: from_bytes_le_Cons)
qed

lemma length_le_digits: "length (le_digits n x) = n"
  by (induction n arbitrary: x) simp_all

lemma from_bytes_le_digits:
  "0 \<le> x \<Longrightarrow> x < 256 ^ n \<Longrightarrow> from_bytes_le (le_digits n x) = x"
proof (induction n arbitrary: x)
  case 0
  then show ?case by (simp add: from_bytes_le_Nil)
next
  case (Suc n)
  have "0 \<le> x div 256" using Suc.prems by simp
  moreover have "x div 256 < 256 ^ n"
    using Suc.prems by (simp add: div_less_iff_less_mult mult.commute)
  ultimately have IH: "from_bytes_le (le_digits n (x div 256)) = x div 256"
    by (rule Suc.IH)
  have "uint (word_of_int (x mod 256) :: byte) = x mod 256"
    by (rule uint_byte_of_mod)
  with IH show ?case by (simp add: from_bytes_le_Cons)
qed

lemma from_bytes_le_append:
  "from_bytes_le (as @ bs) = from_bytes_le as + 256 ^ length as * from_bytes_le bs"
  by (induction as) (simp_all add: from_bytes_le_Nil from_bytes_le_Cons algebra_simps)

lemma clamp_bounds:
  assumes "0 \<le> a" "a < 2 ^ 256"
  shows "2 ^ 254 \<le> clamp a \<and> clamp a < 2 ^ 256"
proof -
  define b where "b = (a AND NOT 7) AND NOT (push_bit 254 1)"
  have b0: "0 \<le> b" using assms(1) by (simp add: b_def)
  have "b \<le> a AND NOT 7" unfolding b_def
    by (rule AND_upper1) (simp add: assms(1))
  also have "\<dots> \<le> a" by (rule AND_upper1) (rule assms(1))
  finally have b1: "b < 2 ^ 256" using assms(2) by simp
  have c: "clamp a = b OR 2 ^ 254" by (simp add: clamp_def b_def)
  have "(2::int) ^ 254 \<le> 2 ^ 254 OR b" by (rule or_greater_eq) (rule b0)
  then have lo: "2 ^ 254 \<le> clamp a" by (simp add: c or.commute)
  have "b OR 2 ^ 254 < 2 ^ 256" by (rule OR_upper) (use b0 b1 in simp_all)
  with lo show ?thesis by (simp add: c)
qed

lemma clamp_digest_bounds:
  "2 ^ 254 \<le> clamp (from_bytes_le (take 32 h)) \<and> clamp (from_bytes_le (take 32 h)) < 2 ^ 256"
proof (rule clamp_bounds)
  show "0 \<le> from_bytes_le (take 32 h)" using from_bytes_le_bounds by blast
  have "from_bytes_le (take 32 h) < 256 ^ length (take 32 h)"
    using from_bytes_le_bounds by blast
  also have "\<dots> \<le> (256::int) ^ 32" by (rule power_increasing) simp_all
  finally show "from_bytes_le (take 32 h) < 2 ^ 256" by simp
qed

lemma secret_loop_clamped:
  "secret_loop k H src = Inr (s, src') \<Longrightarrow> \<exists>h. s = clamp (from_bytes_le (take 32 h))"
  by (induction k H src rule: secret_loop.induct) (auto simp: Let_def)

lemma generate_keys_collapse:
  assumes "ed_generate_keys H src = Inr ((secret, public), src')"
  shows "public = Some 0 \<and> 0 \<le> secret \<and> secret < 256 ^ 32"
proof -
  from assms obtain s1 where g: "generate_secret H src = Inr (secret, s1)"
    and sm: "scalar_mult secret (Some ed_G) = Inr public"
    by (auto simp: ed_generate_keys_def split: sum.splits prod.splits)
  from g obtain h where s: "secret = clamp (from_bytes_le (take 32 h))"
    unfolding generate_secret_def by (blast dest: secret_loop_clamped)
  from clamp_digest_bounds [of h] s have b: "2 ^ 254 \<le> secret" "secret < 2 ^ 256" by simp_all
  from b(1) have "8 \<le> secret" by simp
  then have "scalar_mult secret (Some ed_G) = Inr (Some 0)" by (rule scalar_mult_collapse)
  with sm b show ?thesis by simp
qed

text \<open>The scalars that \<open>sign\<close> computes from the secret and the message: the nonce \<open>r\<close>, the
  clamped scalar \<open>a\<close>, and the hash over \<open>R\<close>, \<open>A\<close> and the message.\<close>

definition sign_nonce :: "hashfn \<Rightarrow> byte list \<Rightarrow> int \<Rightarrow> int" where
  "sign_nonce H msg secret = from_bytes_le (H (drop 32 (H (le_digits 32 secret)) @ msg)) mod ed_l"

definition sign_scalar :: "hashfn \<Rightarrow> int \<Rightarrow> int" where
  "sign_scalar H secret = clamp (from_bytes_le (take 32 (H (le_digits 32 secret))))"

definition challenge :: "hashfn \<Rightarrow> byte list \<Rightarrow> byte list \<Rightarrow> byte list \<Rightarrow> int" where
  "challenge H R_bytes A_bytes msg = from_bytes_le (H (R_bytes @ A_bytes @ msg))"

definition sign_response :: "hashfn \<Rightarrow> byte list \<Rightarrow> int \<Rightarrow> int" where
  "sign_response H msg secret =
     (sign_nonce H msg secret
        + challenge H (le_digits 32 0) (le_digits 32 0) msg * sign_scalar H secret) mod ed_l"

lemma ed_l_bounds: "0 < ed_l" "ed_l < 256 ^ 32"
  by (simp_all add: ed_l_def)

lemma to_bytes_le_Some:
  "0 \<le> x \<Longrightarrow> x < 256 ^ n \<Longrightarrow> to_bytes_le (Some x) n = Inr (le_digits n x)"
  by (simp add: to_bytes_le_def)

lemma to_bytes_le_0: "to_bytes_le (Some 0) 32 = Inr (le_digits 32 0)"
  by (rule to_bytes_le_Some) simp_all

lemma to_bytes_le_mod_l: "to_bytes_le (Some (x mod ed_l)) 32 = Inr (le_digits 32 (x mod ed_l))"
proof (rule to_bytes_le_Some)
  show "0 \<le> x mod ed_l" using ed_l_bounds(1) by simp
  have "x mod ed_l < ed_l" using ed_l_bounds(1) by simp
  with ed_l_bounds(2) show "x mod ed_l < 256 ^ 32" by linarith
qed

lemma ed_sign_collapse:
  assumes s: "0 \<le> secret" "secret < 256 ^ 32"
    and r: "8 \<le> sign_nonce H msg secret"
  shows "ed_sign H msg secret = Inr (le_digits 32 0 @ le_digits 32 (sign_response H msg secret))"
proof -
  have sb: "to_bytes_le (Some secret) 32 = Inr (le_digits 32 secret)"
    using s by (rule to_bytes_le_Some)
  have R: "scalar_mult (from_bytes_le (H (drop 32 (H (le_digits 32 secret)) @ msg)) mod ed_l)
             (Some ed_G) = Inr (Some 0)"
    using r unfolding sign_nonce_def by (rule scalar_mult_collapse)
  have "8 \<le> clamp (from_bytes_le (take 32 (H (le_digits 32 secret))))"
    using clamp_digest_bounds [of "H (le_digits 32 secret)"] by simp
  then have A: "scalar_mult (clamp (from_bytes_le (take 32 (H (le_digits 32 secret)))))
             (Some ed_G) = Inr (Some 0)"
    by (rule scalar_mult_collapse)
  show ?thesis
    unfolding ed_sign_def sign_response_def sign_nonce_def sign_scalar_def challenge_def
    by (simp only: sb R A to_bytes_le_0 to_bytes_le_mod_l sum.case Let_def)
qed

lemma ed_verify_collapse:
  assumes S: "8 \<le> S" "S < ed_l"
    and h: "8 \<le> challenge H (le_digits 32 0) (le_digits 32 0) msg mod ed_l"
  shows "ed_verify H msg (le_digits 32 0 @ le_digits 32 S) (Some 0) = Inr True"
proof -
  let ?sig = "le_digits 32 0 @ le_digits 32 S"
  have len: "length ?sig = 64" by (simp add: length_le_digits)
  have tk: "take 32 ?sig = le_digits 32 0" by (simp add: length_le_digits)
  have dr: "drop 32 ?sig = le_digits 32 S" by (simp add: length_le_digits)
  have R0: "from_bytes_le (le_digits 32 0) = 0"
    by (rule from_bytes_le_digits) simp_all
  have "S < 256 ^ 32" using S(2) ed_l_bounds(2) by linarith
  with S(1) have S0: "from_bytes_le (le_digits 32 S) = S"
    by (intro from_bytes_le_digits) simp_all
  have nS: "\<not> ed_l \<le> S" using S(2) by simp
  have left: "scalar_mult S (Some ed_G) = Inr (Some 0)"
    using S(1) by (rule scalar_mult_collapse)
  have hA: "scalar_mult (from_bytes_le (H (le_digits 32 0 @ le_digits 32 0 @ msg)) mod ed_l)
              (Some 0) = Inr (Some 0)"
    using h unfolding challenge_def by (rule scalar_mult_collapse)
  from point_decompress_pair [of 0] obtain y where
    d: "point_decompress (Some 0) = Inr [0, y]" by auto
  show ?thesis
    unfolding ed_verify_def
    by (simp only: len tk dr R0 S0 nS left hA d to_bytes_le_0 point_add_double_x0
          point_compress_0 sum.case option.case list.case Let_def if_False not_not
          refl simp_thms)
qed

text \<open>
  A consequence of the arithmetic above, not of the group law of the curve: when the nonce,
  the challenge and the response are each at least 8, every scalar multiplication in \<open>sign\<close>
  and \<open>verify\<close> returns the compressed value 0, \<open>sign\<close> returns 32 zero bytes followed by the
  response, and \<open>verify\<close> compares 0 with 0.  The public key is 0 for every secret
  (\<open>generate_keys_collapse\<close>), and \<open>verify\<close> accepts 32 zero bytes followed by any \<open>S\<close> from 8
  up to the group order on any message whose challenge is at least 8 (\<open>ed_verify_collapse\<close>).
\<close>

lemma ed_sign_verify_collapsed:
  assumes keys: "ed_generate_keys H src = Inr ((secret, public), src')"
    and r: "8 \<le> sign_nonce H msg secret"
    and h: "8 \<le> challenge H (le_digits 32 0) (le_digits 32 0) msg mod ed_l"
    and S: "8 \<le> sign_response H msg secret"
  shows "\<exists>sig. ed_sign H msg secret = Inr sig \<and> ed_verify H msg sig public = Inr True"
proof -
  from keys have k: "public = Some 0" "0 \<le> secret" "secret < 256 ^ 32"
    using generate_keys_collapse by blast+
  from k(2,3) r have sg: "ed_sign H msg secret
      = Inr (le_digits 32 0 @ le_digits 32 (sign_response H msg secret))"
    by (rule ed_sign_collapse)
  have "sign_response H msg secret < ed_l"
    unfolding sign_response_def using ed_l_bounds(1) by simp
  with S have "ed_verify H msg (le_digits 32 0 @ le_digits 32 (sign_response H msg secret))
      (Some 0) = Inr True"
    using h by (intro ed_verify_collapse)
  with sg k(1) show ?thesis by simp
qed

text \<open>The twisted Edwards curve of Ed25519, \<open>- x\<^sup>2 + y\<^sup>2 = 1 + d x\<^sup>2 y\<^sup>2\<close> over the integers
  modulo \<open>ed_p\<close>, on reduced coordinates.  The source has no such test; the predicate only
  serves to say which pairs are curve points.\<close>

definition on_curve :: "int \<Rightarrow> int \<Rightarrow> bool" where
  "on_curve x y \<longleftrightarrow>
     0 \<le> x \<and> x < ed_p \<and> 0 \<le> y \<and> y < ed_p
     \<and> (y * y - x * x) mod ed_p = (1 + ed_d * x * x * y * y) mod ed_p"

lemma ed_p_pos: "0 < ed_p"
  using ed_p_gt by simp

lemma pow_mod_range: "0 \<le> pow_mod b e ed_p \<and> pow_mod b e ed_p < ed_p"
  using ed_p_pos by (simp add: pow_mod_def)

text \<open>
  C4.  \<open>point_decompress\<close> has no failure path for an integer argument: for every \<open>c\<close> it
  returns a pair whose first component is the low 255 bits of \<open>c\<close> and whose second
  component is a residue modulo \<open>ed_p\<close>.
\<close>

theorem point_decompress_total:
  "\<exists>y. 0 \<le> y \<and> y < ed_p
       \<and> point_decompress (Some c) = Inr [c AND (push_bit 255 1 - 1), y]"
proof -
  have m: "0 \<le> a mod ed_p \<and> a mod ed_p < ed_p" for a
    using ed_p_pos by simp
  define x where "x = c AND (push_bit 255 1 - 1)"
  define y2 where "y2 = (x * x - 1) * inv_ed (ed_d * x * x + 1) mod ed_p"
  define y0 where "y0 = pow_mod y2 ((ed_p + 3) div 8) ed_p"
  define y1 where "y1 = (if (y0 * y0 - y2) mod ed_p \<noteq> 0
                         then y0 * pow_mod 2 ((ed_p - 1) div 4) ed_p mod ed_p else y0)"
  define y where "y = (if y1 mod 2 \<noteq> drop_bit 255 c AND 1 then (- y1) mod ed_p else y1)"
  have r: "point_decompress (Some c) = Inr [x, y]"
    unfolding point_decompress_def y_def y1_def y0_def y2_def x_def
    by (simp only: option.case Let_def)
  have "0 \<le> y0 \<and> y0 < ed_p" unfolding y0_def by (rule pow_mod_range)
  then have "0 \<le> y1 \<and> y1 < ed_p" unfolding y1_def using m by presburger
  then have "0 \<le> y \<and> y < ed_p" unfolding y_def using m by presburger
  with r show ?thesis unfolding x_def by blast
qed

lemma pow_mod_0: "0 < e \<Longrightarrow> pow_mod 0 e ed_p = 0"
  by (simp add: pow_mod_def zero_power)

lemma point_decompress_1: "point_decompress (Some 1) = Inr [1, 0]"
proof -
  have x: "(1::int) AND (push_bit 255 1 - 1) = 1"
    by (simp add: and_one_eq)
  have s: "drop_bit 255 (1::int) AND 1 = 0" by (simp add: drop_bit_eq_div)
  have e: "0 < (ed_p + 3) div 8" by (simp add: ed_p_def)
  show ?thesis
    unfolding point_decompress_def
    by (simp only: option.case Let_def x s mult_1 mult_1_right diff_self mult_zero_left
          mod_0 pow_mod_0 [OF e] minus_zero refl if_False if_True not_True_eq_False simp_thms)
qed

theorem point_decompress_off_curve_counterexample:
  "point_decompress (Some 1) = Inr [1, 0] \<and> \<not> on_curve 1 0"
proof -
  have "(0 * 0 - 1 * 1) mod ed_p = ed_p - 1"
    using ed_p_gt by (simp add: zmod_minus1)
  moreover have "(1 + ed_d * 1 * 1 * 0 * 0) mod ed_p = 1"
    using ed_p_gt by simp
  ultimately have "\<not> on_curve 1 0"
    using ed_p_gt by (simp add: on_curve_def)
  with point_decompress_1 show ?thesis by simp
qed

section \<open>Decompressing the neutral element\<close>

lemma top_bit_only:
  "push_bit n (1::int) AND (push_bit n 1 - 1) = 0"
  "drop_bit n (push_bit n (1::int)) AND 1 = 1"
proof -
  have "push_bit n (1::int) AND mask n = take_bit n (push_bit n 1)"
    by (simp only: take_bit_eq_mask)
  also have "\<dots> = 0" by (simp add: take_bit_push_bit)
  finally show "push_bit n (1::int) AND (push_bit n 1 - 1) = 0"
    by (simp add: mask_eq_exp_minus_1)
  show "drop_bit n (push_bit n (1::int)) AND 1 = 1"
    by (simp add: drop_bit_eq_div push_bit_eq_mult)
qed

lemma minus_one_sq_mod:
  assumes "2 < (m::int)"
  shows "(m - 1) ^ (2 * k) mod m = 1"
proof -
  have "(m - 1) ^ 2 = m * (m - 2) + 1" by (simp add: power2_eq_square algebra_simps)
  then have sq: "(m - 1) ^ 2 mod m = 1" using assms by simp
  have "(m - 1) ^ (2 * k) mod m = ((m - 1) ^ 2 mod m) ^ k mod m"
    by (simp only: power_mult power_mod)
  also have "\<dots> = 1" using assms by (simp only: sq power_one) simp
  finally show ?thesis .
qed

lemma pow_mod_1: "pow_mod 1 e ed_p = 1"
  using ed_p_gt by (simp add: pow_mod_def)

lemma inv_ed_1: "inv_ed 1 = 1"
  by (simp add: inv_ed_def pow_mod_1)

lemma on_curve_neutral: "on_curve 0 1"
  using ed_p_gt by (simp add: on_curve_def)

lemma point_compress_neutral: "point_compress 0 1 = push_bit 255 1"
  by (simp add: point_compress_def)

lemma first_root_neutral: "pow_mod (ed_p - 1) ((ed_p + 3) div 8) ed_p = 1"
proof -
  define k :: int where "k = 2 ^ 251 - 1"
  have k0: "0 \<le> k" by (simp add: k_def)
  have "ed_p + 3 = 8 * (2 * k)" by (simp add: ed_p_def k_def)
  then have "(ed_p + 3) div 8 = 2 * k" by simp
  moreover have "nat (2 * k) = 2 * nat k" using k0 by simp
  ultimately show ?thesis
    using minus_one_sq_mod [OF ed_p_gt, of "nat k"] by (simp only: pow_mod_def)
qed

text \<open>The curve point \<open>(0, 1)\<close> is compressed to \<open>1 << 255\<close>.  Decompressing that value takes
  \<open>y2 = -1\<close>; the first root candidate is 1, which fails the test \<open>y * y = y2\<close>, so the
  result is \<open>2\<^bsup>(p - 1) / 4\<^esup> mod p\<close>, up to the sign chosen by the parity rule.\<close>

lemma point_decompress_neutral:
  "point_decompress (Some (point_compress 0 1))
     = Inr [0, let s = pow_mod 2 ((ed_p - 1) div 4) ed_p
               in if s mod 2 \<noteq> 1 then (- s) mod ed_p else s]"
proof -
  define s where "s = pow_mod 2 ((ed_p - 1) div 4) ed_p"
  have s_mod: "s mod ed_p = s" by (simp add: s_def pow_mod_def)
  have y2: "(0 * 0 - 1) * inv_ed (ed_d * 0 * 0 + 1) mod ed_p = ed_p - 1"
    using ed_p_gt by (simp add: inv_ed_1 zmod_minus1)
  have "(2 - ed_p) mod ed_p = (2 - ed_p + ed_p) mod ed_p" by (simp only: mod_add_self2)
  also have "\<dots> = 2" using ed_p_gt by simp
  finally have chk: "(1 * 1 - (ed_p - 1)) mod ed_p \<noteq> 0" by simp
  have y1: "1 * s mod ed_p = s" by (simp add: s_mod)
  show ?thesis
    unfolding point_decompress_def point_compress_neutral s_def [symmetric]
    by (simp only: option.case Let_def top_bit_only y2 first_root_neutral chk y1
          if_True simp_thms s_def [symmetric])
qed

text \<open>
  C3.  The neutral element \<open>(0, 1)\<close> satisfies the curve equation, and
  \<open>point_decompress (point_compress 0 1)\<close> returns \<open>0\<close> together with
  \<open>2\<^bsup>(p - 1) / 4\<^esup> mod p\<close> or its negative, a square root of \<open>-1\<close> where the point
  has \<open>y = 1\<close>.
\<close>

theorem decompress_neutral_element:
  "on_curve 0 1
   \<and> point_decompress (Some (point_compress 0 1))
       = Inr [0, let s = pow_mod 2 ((ed_p - 1) div 4) ed_p
                 in if s mod 2 \<noteq> 1 then (- s) mod ed_p else s]"
  using on_curve_neutral point_decompress_neutral by simp

end
